theory Spec2Isabelle
  imports Complex_Main "HOL-Library.Sublist" "HOL-Library.Product_Lexorder" "HOL-Library.List_Lexorder"
begin

section \<open>Python strings\<close>

text \<open>
  A Python \<open>str\<close> is a sequence of Unicode code points and \<open>len\<close> counts code points.
  The messages of the bot contain Lithuanian letters beyond Latin-1, and directory names
  and command output are arbitrary text, so a string is modelled as the list of its code
  points.
\<close>

type_synonym pystr = "nat list"

definition ascii :: "string \<Rightarrow> pystr" where
  "ascii s = map of_char s"

text \<open>\<open>"\n".join(lines)\<close>\<close>

fun join_nl :: "pystr list \<Rightarrow> pystr" where
  "join_nl [] = []"
| "join_nl [l] = l"
| "join_nl (l # m # ls) = l @ [10] @ join_nl (m # ls)"

text \<open>\<open>str(n)\<close> and \<open>f"{n}"\<close> for a non-negative integer: its decimal digits.\<close>

fun str_nat :: "nat \<Rightarrow> pystr" where
  "str_nat n = (if n < 10 then [48 + n] else str_nat (n div 10) @ [48 + n mod 10])"

declare str_nat.simps [simp del]

definition str_int :: "int \<Rightarrow> pystr" where
  "str_int i = (if i < 0 then [45] @ str_nat (nat (- i)) else str_nat (nat i))"

text \<open>\<open>f"{s:>w}"\<close>: pad with spaces on the left up to width \<open>w\<close>.\<close>

definition rjust :: "nat \<Rightarrow> pystr \<Rightarrow> pystr" where
  "rjust w s = replicate (w - length s) 32 @ s"

text \<open>\<open>f"{n:02d}"\<close>-style zero padding, as \<open>strftime\<close> uses for its two-digit fields.\<close>

definition zfill :: "nat \<Rightarrow> pystr \<Rightarrow> pystr" where
  "zfill w s = replicate (w - length s) 48 @ s"

text \<open>The code fence around every report: three backquotes and a newline on each side.\<close>

definition fence :: "pystr \<Rightarrow> pystr" where
  "fence body = ascii ''```'' @ [10] @ body @ [10] @ ascii ''```''"

text \<open>The text between the opening fence line and the closing fence line.\<close>

definition body_of :: "pystr \<Rightarrow> pystr" where
  "body_of txt = take (length txt - 8) (drop 4 txt)"

section \<open>The bounded report (lines 207-224, 254-271 and 291-305)\<close>

text \<open>
  The three report functions carry the same loop: the local variables \<open>lines\<close>,
  \<open>hidden\<close> and \<open>current_len\<close>, the constant \<open>max_len = 1800\<close>, and one candidate line
  per item. The loop is modelled once, with the header lines, the candidate lines, the
  budget and the text of the trailer line as parameters.
\<close>

record budget =
  lines :: "pystr list"
  hidden :: nat
  current_len :: nat

text \<open>\<open>current_len = sum(len(line) + 1 for line in lines)\<close>\<close>

definition start_budget :: "pystr list \<Rightarrow> budget" where
  "start_budget hdr =
     \<lparr>lines = hdr, hidden = 0, current_len = sum_list (map (\<lambda>line. length line + 1) hdr)\<rparr>"

text \<open>The loop body: either \<open>hidden += 1; continue\<close> or append and count.\<close>

definition add_candidate :: "nat \<Rightarrow> budget \<Rightarrow> pystr \<Rightarrow> budget" where
  "add_candidate max_len b line =
     (let line_len = length line + 1 in
      if current_len b + line_len > max_len
      then b\<lparr>hidden := hidden b + 1\<rparr>
      else b\<lparr>lines := lines b @ [line], current_len := current_len b + line_len\<rparr>)"

fun add_candidates :: "nat \<Rightarrow> budget \<Rightarrow> pystr list \<Rightarrow> budget" where
  "add_candidates max_len b [] = b"
| "add_candidates max_len b (line # rest) =
     add_candidates max_len (add_candidate max_len b line) rest"

text \<open>\<open>if hidden: lines.append(trailer)\<close>\<close>

definition report_lines :: "(nat \<Rightarrow> pystr) \<Rightarrow> budget \<Rightarrow> pystr list" where
  "report_lines trailer b =
     (if hidden b \<noteq> 0 then lines b @ [trailer (hidden b)] else lines b)"

definition bounded_report :: "nat \<Rightarrow> (nat \<Rightarrow> pystr) \<Rightarrow> pystr list \<Rightarrow> pystr list \<Rightarrow> pystr" where
  "bounded_report max_len trailer hdr cands =
     fence (join_nl (report_lines trailer (add_candidates max_len (start_budget hdr) cands)))"

text \<open>
  The formatter as the specification words it: walk the candidates in order with the
  current length; a candidate that fits is kept and counted against the budget, any other
  is dropped and counted as hidden; the walk always reaches the end of the list.
\<close>

fun spec_pack :: "nat \<Rightarrow> nat \<Rightarrow> pystr list \<Rightarrow> pystr list \<times> nat" where
  "spec_pack max_bytes cur [] = ([], 0)"
| "spec_pack max_bytes cur (c # cs) =
     (if cur + length c + 1 \<le> max_bytes
      then (case spec_pack max_bytes (cur + length c + 1) cs of (kept, n) \<Rightarrow> (c # kept, n))
      else (case spec_pack max_bytes cur cs of (kept, n) \<Rightarrow> (kept, n + 1)))"


section \<open>More of Python's string methods\<close>

text \<open>\<open>str.isspace\<close> for one code point: the characters \<open>str.split()\<close> and \<open>str.strip()\<close> skip.\<close>

definition py_isspace :: "nat \<Rightarrow> bool" where
  "py_isspace c \<longleftrightarrow>
     (9 \<le> c \<and> c \<le> 13) \<or> (28 \<le> c \<and> c \<le> 32) \<or> c = 133 \<or> c = 160 \<or> c = 5760
     \<or> (8192 \<le> c \<and> c \<le> 8202) \<or> c = 8232 \<or> c = 8233 \<or> c = 8239 \<or> c = 8287 \<or> c = 12288"

text \<open>\<open>s.strip()\<close>\<close>

definition strip :: "pystr \<Rightarrow> pystr" where
  "strip s = rev (dropWhile py_isspace (rev (dropWhile py_isspace s)))"

text \<open>The line boundaries of \<open>str.splitlines\<close>; a carriage return followed by a line feed is one boundary.\<close>

definition is_linebreak :: "nat \<Rightarrow> bool" where
  "is_linebreak c \<longleftrightarrow> (10 \<le> c \<and> c \<le> 13) \<or> (28 \<le> c \<and> c \<le> 30) \<or> c = 133 \<or> c = 8232 \<or> c = 8233"

fun splitlines_from :: "pystr \<Rightarrow> pystr \<Rightarrow> pystr list" where
  "splitlines_from cur [] = (if cur = [] then [] else [cur])"
| "splitlines_from cur (c # cs) =
     (if c = 13 then
        (case cs of
           [] \<Rightarrow> [cur]
         | d # ds \<Rightarrow> if d = 10 then cur # splitlines_from [] ds else cur # splitlines_from [] (d # ds))
      else if is_linebreak c then cur # splitlines_from [] cs
      else splitlines_from (cur @ [c]) cs)"

definition splitlines :: "pystr \<Rightarrow> pystr list" where
  "splitlines s = splitlines_from [] s"

text \<open>
  \<open>s.split(None, maxsplit)\<close>: fields separated by runs of whitespace; after \<open>maxsplit\<close>
  fields the rest of the string, without its leading whitespace, is the last field.
\<close>

fun split_ws :: "nat \<Rightarrow> pystr \<Rightarrow> pystr list" where
  "split_ws 0 s =
     (let r = dropWhile py_isspace s in if r = [] then [] else [r])"
| "split_ws (Suc k) s =
     (let r = dropWhile py_isspace s in
      if r = [] then []
      else takeWhile (\<lambda>c. \<not> py_isspace c) r # split_ws k (dropWhile (\<lambda>c. \<not> py_isspace c) r))"

text \<open>\<open>s.split(sep, maxsplit)\<close> for a separator of one character.\<close>

fun split_on :: "nat \<Rightarrow> nat \<Rightarrow> pystr \<Rightarrow> pystr list" where
  "split_on sep 0 s = [s]"
| "split_on sep (Suc k) s =
     (if sep \<in> set s
      then takeWhile (\<lambda>c. c \<noteq> sep) s # split_on sep k (tl (dropWhile (\<lambda>c. c \<noteq> sep) s))
      else [s])"

text \<open>\<open>s.find(sub)\<close>: the index of the first occurrence, \<open>None\<close> for Python's \<open>-1\<close>.\<close>

fun find_sub :: "pystr \<Rightarrow> pystr \<Rightarrow> nat option" where
  "find_sub sub [] = (if sub = [] then Some 0 else None)"
| "find_sub sub (c # cs) =
     (if prefix sub (c # cs) then Some 0 else map_option Suc (find_sub sub cs))"

text \<open>\<open>os.path.join(a, b)\<close> of \<open>posixpath\<close>, for two components.\<close>

definition path_join :: "pystr \<Rightarrow> pystr \<Rightarrow> pystr" where
  "path_join a b =
     (if prefix [47] b then b
      else if a = [] \<or> last a = 47 then a @ b
      else a @ [47] @ b)"

section \<open>Floating-point formatting\<close>

text \<open>
  A finite double is modelled by the rational number it denotes. The rounding of an
  arithmetic operation to the nearest double is a function of the host (below);
  formatting with \<open>.0f\<close> and \<open>.2f\<close> is exact in Python: the decimal expansion of the
  double's value is rounded half-to-even at the requested digit.
\<close>

definition round_half_even :: "rat \<Rightarrow> int" where
  "round_half_even x =
     (let f = \<lfloor>x\<rfloor>; r = x - of_int f in
      if r < 1 / 2 then f else if 1 / 2 < r then f + 1 else if even f then f else f + 1)"

definition fmt_0f :: "rat \<Rightarrow> pystr" where
  "fmt_0f x = (if x < 0 then [45] else []) @ str_nat (nat (round_half_even \<bar>x\<bar>))"

definition fmt_2f :: "rat \<Rightarrow> pystr" where
  "fmt_2f x =
     (let n = nat (round_half_even (\<bar>x\<bar> * 100)) in
      (if x < 0 then [45] else []) @ str_nat (n div 100) @ [46] @ zfill 2 (str_nat (n mod 100)))"

section \<open>Timestamps\<close>

text \<open>A naive \<open>datetime\<close> at minute precision; seconds and microseconds are always zero here.\<close>

record datetime =
  year :: nat
  month :: nat
  day :: nat
  hour :: nat
  minute :: nat

text \<open>Python compares two \<open>datetime\<close> values field by field, the year first.\<close>

definition dt_key :: "datetime \<Rightarrow> nat \<times> nat \<times> nat \<times> nat \<times> nat" where
  "dt_key t = (year t, month t, day t, hour t, minute t)"

definition is_leap :: "nat \<Rightarrow> bool" where
  "is_leap y \<longleftrightarrow> y mod 4 = 0 \<and> (y mod 100 \<noteq> 0 \<or> y mod 400 = 0)"

definition days_in_month :: "nat \<Rightarrow> nat \<Rightarrow> nat" where
  "days_in_month y m =
     (if m = 2 then (if is_leap y then 29 else 28)
      else if m = 4 \<or> m = 6 \<or> m = 9 \<or> m = 11 then 30 else 31)"

text \<open>
  The constructor \<open>datetime(year, month, day, hour, minute)\<close>: \<open>None\<close> is its
  \<open>ValueError\<close>.
\<close>

definition make_datetime :: "nat \<Rightarrow> nat \<Rightarrow> nat \<Rightarrow> nat \<Rightarrow> nat \<Rightarrow> datetime option" where
  "make_datetime y m d H M =
     (if 1 \<le> y \<and> y \<le> 9999 \<and> 1 \<le> m \<and> m \<le> 12 \<and> 1 \<le> d \<and> d \<le> days_in_month y m
         \<and> H \<le> 23 \<and> M \<le> 59
      then Some \<lparr>year = y, month = m, day = d, hour = H, minute = M\<rparr>
      else None)"

subsection \<open>\<open>datetime.strptime(name, "%Y-%m-%d_%H-%M")\<close>\<close>

text \<open>
  \<open>strptime\<close> compiles the format into a regular expression and matches it at the start
  of the string:
  \<^verbatim>\<open>(?P<Y>\d\d\d\d)-(?P<m>1[0-2]|0[1-9]|[1-9])-(?P<d>3[0-1]|[1-2]\d|0[1-9]|[1-9]| [1-9])\<close>
  \<^verbatim>\<open>_(?P<H>2[0-3]|[0-1]\d|\d)-(?P<M>[0-5]\d|\d)\<close>
  It raises \<open>ValueError\<close> when the expression does not match, when text remains after the
  match, and when the fields are no calendar date. In a pattern over \<open>str\<close>, \<open>\d\<close> is any
  Unicode decimal digit, and \<open>int\<close> reads such digits; a class such as \<open>[0-5]\<close> is ASCII.

  The decimal digits of Unicode come in runs of ten, zero first. The table lists the
  zeros of Unicode 14.0 (Python 3.11).
\<close>

definition decimal_zeros :: "nat list" where
  "decimal_zeros =
     [48, 1632, 1776, 1984, 2406, 2534, 2662, 2790, 2918, 3046, 3174, 3302, 3430, 3558,
      3664, 3792, 3872, 4160, 4240, 6112, 6160, 6470, 6608, 6784, 6800, 6992, 7088, 7232,
      7248, 42528, 43216, 43264, 43472, 43504, 43600, 44016, 65296, 66720, 68912, 69734,
      69872, 69942, 70096, 70384, 70736, 70864, 71248, 71360, 71472, 71904, 72016, 72784,
      73040, 73120, 92768, 92864, 93008, 120782, 120792, 120802, 120812, 120822, 123200,
      123632, 125264, 130032]"

text \<open>\<open>\d\<close>, with the value \<open>int\<close> gives the digit.\<close>

definition digit_value :: "nat \<Rightarrow> nat option" where
  "digit_value c =
     (case find (\<lambda>z. z \<le> c \<and> c < z + 10) decimal_zeros of
        None \<Rightarrow> None
      | Some z \<Rightarrow> Some (c - z))"

text \<open>An ASCII class \<open>[lo-hi]\<close> of digits.\<close>

definition digit_in :: "nat \<Rightarrow> nat \<Rightarrow> nat \<Rightarrow> nat option" where
  "digit_in lo hi c = (if 48 + lo \<le> c \<and> c \<le> 48 + hi then Some (c - 48) else None)"

text \<open>
  A piece of the expression maps the text to the list of its matches, each with the text
  that remains, in the order in which the backtracking matcher tries them.
\<close>

definition one_digit :: "(nat \<Rightarrow> nat option) \<Rightarrow> pystr \<Rightarrow> (nat \<times> pystr) list" where
  "one_digit cls s =
     (case s of
        a # rest \<Rightarrow> (case cls a of Some x \<Rightarrow> [(x, rest)] | None \<Rightarrow> [])
      | [] \<Rightarrow> [])"

definition two_digits ::
  "(nat \<Rightarrow> nat option) \<Rightarrow> (nat \<Rightarrow> nat option) \<Rightarrow> pystr \<Rightarrow> (nat \<times> pystr) list" where
  "two_digits cls1 cls2 s =
     (case s of
        a # b # rest \<Rightarrow>
          (case (cls1 a, cls2 b) of (Some x, Some y) \<Rightarrow> [(10 * x + y, rest)] | _ \<Rightarrow> [])
      | _ \<Rightarrow> [])"

definition lit :: "nat \<Rightarrow> pystr \<Rightarrow> pystr list" where
  "lit c s = (case s of a # rest \<Rightarrow> if a = c then [rest] else [] | [] \<Rightarrow> [])"

definition field_Y :: "pystr \<Rightarrow> (nat \<times> pystr) list" where
  "field_Y s =
     [(100 * hi + lo, r2). (hi, r1) \<leftarrow> two_digits digit_value digit_value s,
                           (lo, r2) \<leftarrow> two_digits digit_value digit_value r1]"

definition field_m :: "pystr \<Rightarrow> (nat \<times> pystr) list" where
  "field_m s =
     two_digits (digit_in 1 1) (digit_in 0 2) s
     @ two_digits (digit_in 0 0) (digit_in 1 9) s
     @ one_digit (digit_in 1 9) s"

definition field_d :: "pystr \<Rightarrow> (nat \<times> pystr) list" where
  "field_d s =
     two_digits (digit_in 3 3) (digit_in 0 1) s
     @ two_digits (digit_in 1 2) digit_value s
     @ two_digits (digit_in 0 0) (digit_in 1 9) s
     @ one_digit (digit_in 1 9) s
     @ [(x, r2). r1 \<leftarrow> lit 32 s, (x, r2) \<leftarrow> one_digit (digit_in 1 9) r1]"

definition field_H :: "pystr \<Rightarrow> (nat \<times> pystr) list" where
  "field_H s =
     two_digits (digit_in 2 2) (digit_in 0 3) s
     @ two_digits (digit_in 0 1) digit_value s
     @ one_digit digit_value s"

definition field_M :: "pystr \<Rightarrow> (nat \<times> pystr) list" where
  "field_M s = two_digits (digit_in 0 5) digit_value s @ one_digit digit_value s"

definition strptime_matches :: "pystr \<Rightarrow> ((nat \<times> nat \<times> nat \<times> nat \<times> nat) \<times> pystr) list" where
  "strptime_matches s =
     [((Y, m, d, H, M), r9).
        (Y, r1) \<leftarrow> field_Y s, r2 \<leftarrow> lit 45 r1,
        (m, r3) \<leftarrow> field_m r2, r4 \<leftarrow> lit 45 r3,
        (d, r5) \<leftarrow> field_d r4, r6 \<leftarrow> lit 95 r5,
        (H, r7) \<leftarrow> field_H r6, r8 \<leftarrow> lit 45 r7,
        (M, r9) \<leftarrow> field_M r8]"

text \<open>Lines 133-137.\<close>

definition parse_backup_ts :: "pystr \<Rightarrow> datetime option" where
  "parse_backup_ts name =
     (case strptime_matches name of
        [] \<Rightarrow> None
      | ((Y, m, d, H, M), rest) # _ \<Rightarrow>
          if rest \<noteq> [] then None else make_datetime Y m d H M)"

subsection \<open>\<open>strftime\<close>\<close>

text \<open>
  \<open>%m\<close>, \<open>%d\<close>, \<open>%H\<close> and \<open>%M\<close> give two digits. \<open>%Y\<close> gives the digits of the year; whether a
  year below 1000 is padded with zeros to four digits differs between C libraries and
  Python versions, and is a property of the host.
\<close>

definition fmt_Y :: "bool \<Rightarrow> nat \<Rightarrow> pystr" where
  "fmt_Y pad y = (if pad then zfill 4 (str_nat y) else str_nat y)"

definition fmt_2d :: "nat \<Rightarrow> pystr" where
  "fmt_2d n = zfill 2 (str_nat n)"

text \<open>\<open>ts.strftime('%Y-%m-%d %H:%M')\<close>, the form shown in the reports.\<close>

definition strftime_shown :: "bool \<Rightarrow> datetime \<Rightarrow> pystr" where
  "strftime_shown pad ts =
     fmt_Y pad (year ts) @ [45] @ fmt_2d (month ts) @ [45] @ fmt_2d (day ts)
     @ [32] @ fmt_2d (hour ts) @ [58] @ fmt_2d (minute ts)"

text \<open>\<open>ts.strftime('%Y-%m-%d_%H-%M')\<close>, the format of the directory names.\<close>

definition strftime_name :: "bool \<Rightarrow> datetime \<Rightarrow> pystr" where
  "strftime_name pad ts =
     fmt_Y pad (year ts) @ [45] @ fmt_2d (month ts) @ [45] @ fmt_2d (day ts)
     @ [95] @ fmt_2d (hour ts) @ [45] @ fmt_2d (minute ts)"

section \<open>The host\<close>

text \<open>
  What \<open>os.walk\<close> finds under a directory. An entry that is no directory is a plain file
  or a symbolic link; with it comes what \<open>os.stat\<close> reports as size when it follows the
  path (\<open>None\<close> when it raises \<open>OSError\<close>: a dangling link, a vanished file, no
  permission). A symbolic link to a directory is listed among the directories and, as
  \<open>followlinks\<close> is off, not entered. A directory that cannot be listed yields nothing.
\<close>

datatype nondir = Plain "nat option" | Symlink "nat option"

datatype node = NonDir nondir | DirLink | Unreadable | Dir "(pystr \<times> node) list"

text \<open>One entry of \<open>os.scandir\<close>: its name, and what \<open>is_dir()\<close> returns (\<open>None\<close> when it raises).\<close>

datatype dirent = DirEntry (d_name: pystr) (d_is_dir: "bool option")

text \<open>
  The configuration read from the environment (lines 17-20), the file system and the
  external commands as the program observes them, and the two properties of the platform
  named above.
\<close>

record host =
  backup_base_dir :: pystr
  backup_fallback_dir :: pystr
  abspath :: "pystr \<Rightarrow> pystr"
  isdir :: "pystr \<Rightarrow> bool"
  scandir :: "pystr \<Rightarrow> dirent list option"
  tree_at :: "pystr \<Rightarrow> node"
  read_text :: "pystr \<Rightarrow> pystr option"
  check_output :: "pystr list \<Rightarrow> pystr + pystr"
  pad_year :: bool
  rnd :: "rat \<Rightarrow> rat"

text \<open>
  \<open>scandir p\<close> is \<open>None\<close> when \<open>os.scandir(p)\<close> raises; an error while the entries are
  read ends the loop like an entry whose \<open>is_dir()\<close> raises. \<open>tree_at p\<close> is the tree
  \<open>os.walk(p)\<close> traverses. \<open>read_text p\<close> is the content of the file, \<open>None\<close> when opening
  or reading raises. \<open>check_output cmd\<close> is the decoded output of the command, or the
  text of the exception. \<open>rnd\<close> rounds the exact result of an arithmetic operation to the
  nearest double; results beyond the range of a double are outside this model.
\<close>

text \<open>Lines 23-28.\<close>

definition sh :: "host \<Rightarrow> pystr list \<Rightarrow> pystr" where
  "sh h cmd =
     (case check_output h cmd of
        Inr out \<Rightarrow> strip out
      | Inl e \<Rightarrow> ascii ''ERR: '' @ e)"

section \<open>CPU usage (lines 95-115)\<close>

text \<open>
  \<open>read_stat\<close> after \<open>vals = list(map(int, cpu[1:]))\<close>: \<open>None\<close> is the \<open>IndexError\<close> of
  \<open>vals[3]\<close>.
\<close>

definition read_stat :: "int list \<Rightarrow> (int \<times> int) option" where
  "read_stat vals =
     (if length vals < 4 then None
      else Some (sum_list vals, vals ! 3 + (if length vals > 4 then vals ! 4 else 0)))"

text \<open>
  The two readings of \<open>/proc/stat\<close> are parameters: \<open>None\<close> when the file cannot be read
  or a field is no integer, otherwise the integers after the first word of the first line.
\<close>

definition cpu_usage_str :: "host \<Rightarrow> int list option \<Rightarrow> int list option \<Rightarrow> pystr" where
  "cpu_usage_str h stat1 stat2 =
     (case Option.bind stat1 read_stat of
        None \<Rightarrow> ascii ''n/a''
      | Some (t1, i1) \<Rightarrow>
          (case Option.bind stat2 read_stat of
             None \<Rightarrow> ascii ''n/a''
           | Some (t2, i2) \<Rightarrow>
               (let dt = t2 - t1; di = i2 - i1 in
                if dt \<le> 0 then ascii ''n/a''
                else
                  (let usage = rnd h (rnd h (1 - rnd h (of_int di / of_int dt)) * 100)
                   in fmt_0f usage @ ascii ''%''))))"

section \<open>The backup inventory (lines 140-168)\<close>

type_synonym backup = "datetime \<times> pystr \<times> pystr"

text \<open>
  The inner loop over the entries of one root. An exception leaves the loop; what was
  appended before stays in \<open>backups\<close>.
\<close>

fun scan_entries :: "pystr \<Rightarrow> dirent list \<Rightarrow> backup list \<Rightarrow> backup list" where
  "scan_entries base_dir [] backups = backups"
| "scan_entries base_dir (entry # rest) backups =
     (case d_is_dir entry of
        None \<Rightarrow> backups
      | Some False \<Rightarrow> scan_entries base_dir rest backups
      | Some True \<Rightarrow>
          (case parse_backup_ts (d_name entry) of
             None \<Rightarrow> scan_entries base_dir rest backups
           | Some ts \<Rightarrow> scan_entries base_dir rest (backups @ [(ts, d_name entry, base_dir)])))"

text \<open>
  The state of the outer loop: the variables \<open>backups\<close> and \<open>seen_dirs\<close>. \<open>scanned\<close> is
  not a variable of the program: it records the calls of \<open>os.scandir\<close>, in order.
\<close>

record scan_state =
  st_backups :: "backup list"
  st_seen_dirs :: "pystr set"
  scanned :: "pystr list"

definition scan_root :: "host \<Rightarrow> scan_state \<Rightarrow> pystr \<Rightarrow> scan_state" where
  "scan_root h st dir0 =
     (if dir0 = [] then st
      else
        (let base_dir = abspath h dir0 in
         if base_dir \<in> st_seen_dirs st then st
         else
           (let st1 = st\<lparr>st_seen_dirs := insert base_dir (st_seen_dirs st)\<rparr> in
            if \<not> isdir h base_dir then st1
            else
              (case scandir h base_dir of
                 None \<Rightarrow> st1\<lparr>scanned := scanned st1 @ [base_dir]\<rparr>
               | Some entries \<Rightarrow>
                   st1\<lparr>st_backups := scan_entries base_dir entries (st_backups st1),
                       scanned := scanned st1 @ [base_dir]\<rparr>))))"

definition scan_roots :: "host \<Rightarrow> scan_state" where
  "scan_roots h =
     foldl (scan_root h) \<lparr>st_backups = [], st_seen_dirs = {}, scanned = []\<rparr>
       [backup_base_dir h, backup_fallback_dir h]"

text \<open>
  \<open>backups.sort(key=lambda item: item[0], reverse=True)\<close>: a stable sort; with
  \<open>reverse=True\<close> entries of equal key keep their order.
\<close>

definition sort_newest_first :: "backup list \<Rightarrow> backup list" where
  "sort_newest_first bs = rev (sort_key (\<lambda>item. dt_key (fst item)) (rev bs))"

definition list_backups :: "host \<Rightarrow> backup list" where
  "list_backups h = sort_newest_first (st_backups (scan_roots h))"

text \<open>
  The invariant of the outer loop: no root is scanned twice, and every root scanned and
  every root of an entry is in \<open>seen_dirs\<close>.
\<close>

definition scan_inv :: "scan_state \<Rightarrow> bool" where
  "scan_inv st \<longleftrightarrow>
     distinct (scanned st) \<and> set (scanned st) \<subseteq> st_seen_dirs st
     \<and> (\<forall>item \<in> set (st_backups st). snd (snd item) \<in> st_seen_dirs st)"

section \<open>Sizes (lines 171-194)\<close>

text \<open>
  \<open>human_size\<close>. The loop over the units returns at the last unit at the latest; \<open>None\<close>
  stands for the statement after the loop, which is never reached.
\<close>

definition units :: "pystr list" where
  "units = [ascii ''B'', ascii ''KiB'', ascii ''MiB'', ascii ''GiB'', ascii ''TiB'']"

fun human_size_loop :: "host \<Rightarrow> rat \<Rightarrow> pystr list \<Rightarrow> pystr option" where
  "human_size_loop h sz [] = None"
| "human_size_loop h sz (unit # rest) =
     (if sz < 1024 \<or> unit = last units then
        (if unit = ascii ''B'' then Some (str_int \<lfloor>sz\<rfloor> @ [32] @ unit)
         else Some (fmt_2f sz @ [32] @ unit))
      else human_size_loop h (rnd h (sz / 1024)) rest)"

definition human_size :: "host \<Rightarrow> nat \<Rightarrow> pystr" where
  "human_size h num_bytes =
     (case human_size_loop h (rnd h (of_nat num_bytes)) units of
        Some s \<Rightarrow> s
      | None \<Rightarrow> str_nat num_bytes @ ascii '' B'')"

text \<open>
  \<open>os.walk(top)\<close>, top-down: for a directory that can be listed one triple of its path,
  the names of its directories and the names of its other entries, then the walks of the
  directories that are no symbolic links, in the order of the listing. The path of a
  directory is kept as the list of names below \<open>top\<close>; each name of the third component
  comes with the object its path denotes.
\<close>

fun os_walk :: "pystr list \<Rightarrow> node \<Rightarrow> (pystr list \<times> pystr list \<times> (pystr \<times> nondir) list) list" where
  "os_walk dirpath (Dir es) =
     (dirpath,
      concat (map (\<lambda>(n, t). case t of NonDir f \<Rightarrow> [] | _ \<Rightarrow> [n]) es),
      concat (map (\<lambda>(n, t). case t of NonDir f \<Rightarrow> [(n, f)] | _ \<Rightarrow> []) es))
     # concat (map (\<lambda>(n, t). case t of Dir sub \<Rightarrow> os_walk (dirpath @ [n]) t | _ \<Rightarrow> []) es)"
| "os_walk dirpath (NonDir f) = []"
| "os_walk dirpath DirLink = []"
| "os_walk dirpath Unreadable = []"

text \<open>\<open>os.path.islink(path)\<close> and \<open>os.path.getsize(path)\<close> (\<open>None\<close>: \<open>OSError\<close>).\<close>

definition islink :: "nondir \<Rightarrow> bool" where
  "islink f = (case f of Symlink s \<Rightarrow> True | Plain s \<Rightarrow> False)"

definition getsize :: "nondir \<Rightarrow> nat option" where
  "getsize f = (case f of Symlink s \<Rightarrow> s | Plain s \<Rightarrow> s)"

text \<open>The body of the inner loop of \<open>dir_size_bytes\<close>.\<close>

definition add_file_size :: "nat \<Rightarrow> pystr \<times> nondir \<Rightarrow> nat" where
  "add_file_size tot entry =
     (if islink (snd entry) then tot
      else (case getsize (snd entry) of None \<Rightarrow> tot | Some s \<Rightarrow> tot + s))"

definition dir_size_bytes :: "host \<Rightarrow> pystr \<Rightarrow> nat" where
  "dir_size_bytes h path =
     foldl (\<lambda>tot (dirpath, dirs, files). foldl add_file_size tot files) 0
       (os_walk [] (tree_at h path))"

text \<open>
  The specification's words for the same number: the sizes of the regular files of the
  tree; links and files whose size cannot be read count as nothing.
\<close>

fun spec_size :: "node \<Rightarrow> nat" where
  "spec_size (NonDir (Plain (Some s))) = s"
| "spec_size (NonDir (Plain None)) = 0"
| "spec_size (NonDir (Symlink s)) = 0"
| "spec_size DirLink = 0"
| "spec_size Unreadable = 0"
| "spec_size (Dir es) = sum_list (map (\<lambda>(n, t). spec_size t) es)"

section \<open>The reports (lines 197-305)\<close>

definition empty_list_line :: pystr where
  "empty_list_line = ascii ''Backup s'' @ [261] @ ascii ''ra'' @ [353] @ ascii ''as tu'' @ [353, 269] @ ascii ''ias.''"

definition index_header :: pystr where
  "index_header =
     ascii ''Backup s'' @ [261] @ ascii ''ra'' @ [353] @ ascii ''as (naujausi vir'' @ [353] @ ascii ''uje):''"

definition index_trailer :: "nat \<Rightarrow> pystr" where
  "index_trailer n =
     ascii ''... ir dar '' @ str_nat n @ ascii '' backup '' @ [303] @ ascii ''ra'' @ [353, 371]"

definition files_trailer :: "nat \<Rightarrow> pystr" where
  "files_trailer n = ascii ''... ir dar '' @ str_nat n @ ascii '' fail'' @ [371]"

text \<open>\<open>f"{idx:>3}. {ts.strftime('%Y-%m-%d %H:%M')}"\<close>\<close>

definition index_line :: "host \<Rightarrow> nat \<times> backup \<Rightarrow> pystr" where
  "index_line h item =
     rjust 3 (str_nat (fst item)) @ ascii ''. '' @ strftime_shown (pad_year h) (fst (snd item))"

text \<open>\<open>enumerate(xs, start=1)\<close>\<close>

definition enumerate1 :: "'a list \<Rightarrow> (nat \<times> 'a) list" where
  "enumerate1 xs = zip [1 ..< Suc (length xs)] xs"

text \<open>Lines 199-224: \<open>backups_index_text\<close> after \<open>backups = list_backups()\<close>.\<close>

definition index_report :: "host \<Rightarrow> backup list \<Rightarrow> pystr" where
  "index_report h backups =
     (if backups = [] then
        fence (empty_list_line @ [10] @ ascii ''Tikrinti katalogai: '' @ backup_base_dir h
               @ ascii '', '' @ backup_fallback_dir h)
      else
        bounded_report 1800 index_trailer [index_header]
          (map (index_line h) (enumerate1 backups)))"

definition backups_index_text :: "host \<Rightarrow> pystr" where
  "backups_index_text h = index_report h (list_backups h)"

text \<open>
  Lines 239-250: the files of a backup with their sizes, sorted by relative path.
  \<open>os.path.relpath(full_path, backup_path)\<close> is the names below the backup joined by
  slashes. Python compares strings code point by code point.
\<close>

definition rel_path :: "pystr list \<Rightarrow> pystr \<Rightarrow> pystr" where
  "rel_path dirpath name = foldr (\<lambda>d p. d @ [47] @ p) dirpath name"

definition file_entry :: "pystr list \<Rightarrow> pystr \<times> nondir \<Rightarrow> pystr \<times> nat" where
  "file_entry dirpath entry =
     (rel_path dirpath (fst entry), (case getsize (snd entry) of None \<Rightarrow> 0 | Some s \<Rightarrow> s))"

definition walk_files :: "node \<Rightarrow> (pystr \<times> nat) list" where
  "walk_files t = concat (map (\<lambda>(dirpath, dirs, names). map (file_entry dirpath) names) (os_walk [] t))"

definition list_backup_files :: "node \<Rightarrow> (pystr \<times> nat) list" where
  "list_backup_files t = sort_key fst (walk_files t)"

text \<open>\<open>f"{rel_path} ({human_size(size_bytes)})"\<close>\<close>

definition file_line :: "host \<Rightarrow> pystr \<times> nat \<Rightarrow> pystr" where
  "file_line h item = fst item @ ascii '' ('' @ human_size h (snd item) @ ascii '')''"

text \<open>Lines 229-271: \<open>backup_files_text\<close> after \<open>backups = list_backups()\<close>.\<close>

definition files_report :: "host \<Rightarrow> backup list \<Rightarrow> int \<Rightarrow> pystr" where
  "files_report h backups index =
     (if backups = [] then fence empty_list_line
      else if index < 1 \<or> index > int (length backups) then
        fence (ascii ''Neteisingas numeris: '' @ str_int index @ ascii ''. Galimi: 1..''
               @ str_nat (length backups))
      else
        (case backups ! nat (index - 1) of
           (ts, folder, base_dir) \<Rightarrow>
             (let backup_path = path_join base_dir folder in
              if \<not> isdir h backup_path then
                fence (ascii ''Backup #'' @ str_int index @ ascii '' nerastas diske.'')
              else
                (let files = list_backup_files (tree_at h backup_path) in
                 if files = [] then
                   fence (ascii ''Backup #'' @ str_int index @ ascii '' ('' @ strftime_shown (pad_year h) ts
                          @ ascii '') neturi fail'' @ [371, 46])
                 else
                   bounded_report 1800 files_trailer
                     [ascii ''Backup #'' @ str_int index @ ascii '' failai (''
                      @ strftime_shown (pad_year h) ts @ ascii ''):'']
                     (map (file_line h) files)))))"

definition backup_files_text :: "host \<Rightarrow> int \<Rightarrow> pystr" where
  "backup_files_text h index = files_report h (list_backups h) index"

section \<open>Processes and containers (lines 308-371)\<close>

text \<open>\<open>tail.split("/", 1)[0]\<close>: the text before the first separator, all of it when there is none.\<close>

definition before_sep :: "nat \<Rightarrow> pystr \<Rightarrow> pystr" where
  "before_sep sep s = (case split_on sep 1 s of piece # others \<Rightarrow> piece | [] \<Rightarrow> [])"

definition markers :: "pystr list" where
  "markers = [ascii ''docker/'', ascii ''docker-'']"

text \<open>The loop over the markers for one path: the accepted identifier, if any.\<close>

fun scan_markers :: "pystr \<Rightarrow> pystr list \<Rightarrow> pystr option" where
  "scan_markers path [] = None"
| "scan_markers path (marker # rest) =
     (case find_sub marker path of
        None \<Rightarrow> scan_markers path rest
      | Some idx \<Rightarrow>
          (let tail = drop (idx + length marker) path;
               cid = before_sep 46 (before_sep 47 tail)
           in if length cid \<ge> 12 then Some cid else scan_markers path rest))"

text \<open>The loop over the lines of the cgroup file.\<close>

fun scan_cgroups :: "pystr list \<Rightarrow> pystr option" where
  "scan_cgroups [] = None"
| "scan_cgroups (line # rest) =
     (let parts = split_on 58 2 line in
      if length parts \<noteq> 3 then scan_cgroups rest
      else
        (case scan_markers (parts ! 2) markers of
           Some cid \<Rightarrow> Some cid
         | None \<Rightarrow> scan_cgroups rest))"

text \<open>\<open>name.lstrip("/")\<close>\<close>

definition lstrip_slash :: "pystr \<Rightarrow> pystr" where
  "lstrip_slash s = dropWhile (\<lambda>c. c = 47) s"

definition inspect_cmd :: "pystr \<Rightarrow> pystr list" where
  "inspect_cmd container_id =
     [ascii ''docker'', ascii ''inspect'', ascii ''--format'', ascii ''{{.Name}}'', container_id]"

definition docker_name_by_pid :: "host \<Rightarrow> pystr \<Rightarrow> pystr option" where
  "docker_name_by_pid h pid =
     (case read_text h (ascii ''/proc/'' @ pid @ ascii ''/cgroup'') of
        None \<Rightarrow> None
      | Some content \<Rightarrow>
          (case scan_cgroups (splitlines content) of
             None \<Rightarrow> None
           | Some container_id \<Rightarrow>
               (let name = sh h (inspect_cmd container_id) in
                if prefix (ascii ''ERR'') name \<or> name = [] then None
                else Some (lstrip_slash name))))"

text \<open>One line of the listing: no row when it has fewer than four fields.\<close>

definition process_row :: "host \<Rightarrow> pystr \<Rightarrow> pystr list" where
  "process_row h row =
     (let parts = split_ws 3 row in
      if length parts < 4 then []
      else
        (let pid = parts ! 0; pcpu = parts ! 1; pmem = parts ! 2; comm = parts ! 3;
             suffix =
               (if comm = ascii ''apache2'' then
                  (case docker_name_by_pid h pid of
                     None \<Rightarrow> []
                   | Some docker_name \<Rightarrow>
                       if docker_name = [] then []
                       else ascii '' (docker: '' @ docker_name @ ascii '')'')
                else [])
         in [rjust 5 pid @ ascii ''  '' @ rjust 5 pcpu @ ascii ''%  '' @ rjust 5 pmem
             @ ascii ''%  '' @ comm @ suffix]))"

definition ps_cmd :: "pystr \<Rightarrow> pystr list" where
  "ps_cmd sort_by =
     (let order = (if sort_by = ascii ''cpu'' then ascii ''-pcpu'' else ascii ''-pmem'') in
      [ascii ''bash'', ascii ''-lc'',
       ascii ''ps -eo pid,pcpu,pmem,comm --sort='' @ order @ ascii '' | head -n 6''])"

definition top5_processes :: "host \<Rightarrow> pystr \<Rightarrow> pystr" where
  "top5_processes h sort_by =
     (let out = sh h (ps_cmd sort_by); lns = splitlines out in
      if length lns < 2 then ascii ''n/a''
      else
        (let rows = concat (map (process_row h) (tl lns)) in
         if rows = [] then ascii ''n/a'' else join_nl rows))"

section \<open>Example hosts\<close>

text \<open>
  A host with one backup, \<open>2024-01-01_10-00\<close> under \<open>/backups\<close>, that holds eight empty
  files: six with names of 250 characters, one with a name of 214 characters and one
  named \<open>h\<close>.
\<close>

definition long_name :: "nat \<Rightarrow> nat \<Rightarrow> pystr" where
  "long_name c n = c # replicate n 120"

definition long_names :: "pystr list" where
  "long_names =
     [long_name 97 249, long_name 98 249, long_name 99 249, long_name 100 249,
      long_name 101 249, long_name 102 249, long_name 103 213, long_name 104 0]"

definition long_tree :: node where
  "long_tree = Dir (map (\<lambda>n. (n, NonDir (Plain (Some 0)))) long_names)"

definition new_year_ts :: datetime where
  "new_year_ts = \<lparr>year = 2024, month = 1, day = 1, hour = 10, minute = 0\<rparr>"

definition long_host :: host where
  "long_host =
     \<lparr>backup_base_dir = ascii ''/backups'', backup_fallback_dir = [],
      abspath = (\<lambda>p. p), isdir = (\<lambda>p. True),
      scandir = (\<lambda>p. Some [DirEntry (ascii ''2024-01-01_10-00'') (Some True)]),
      tree_at = (\<lambda>p. long_tree),
      read_text = (\<lambda>p. None), check_output = (\<lambda>cmd. Inl []),
      pad_year = False, rnd = (\<lambda>x. x)\<rparr>"

definition long_header :: pystr where
  "long_header = ascii ''Backup #1 failai (2024-01-01 10:00):''"

definition long_lines :: "pystr list" where
  "long_lines = map (\<lambda>n. n @ ascii '' (0 B)'') long_names"

text \<open>What one file adds to the total of \<open>dir_size_bytes\<close>.\<close>

definition file_contrib :: "pystr \<times> nondir \<Rightarrow> nat" where
  "file_contrib entry = add_file_size 0 entry"

text \<open>
  \<open>contains t p f\<close>: below the directory \<open>t\<close>, the names \<open>p\<close> lead through directories
  that are no links to the entry \<open>f\<close>, which is no directory.
\<close>

inductive contains :: "node \<Rightarrow> pystr list \<Rightarrow> nondir \<Rightarrow> bool" where
  here: "(n, NonDir f) \<in> set es \<Longrightarrow> contains (Dir es) [n] f"
| below: "(n, Dir sub) \<in> set es \<Longrightarrow> contains (Dir sub) p f \<Longrightarrow> contains (Dir es) (n # p) f"

text \<open>
  A host whose backup holds \<open>b.txt\<close> (5 bytes), a symbolic link \<open>big.lnk\<close> to a file of
  1000000 bytes, a file \<open>gone\<close> whose size cannot be read, a directory \<open>a\<close> with \<open>x.txt\<close>
  (10 bytes), and a symbolic link \<open>loop\<close> to a directory.
\<close>

definition link_tree :: node where
  "link_tree = Dir
     [(ascii ''b.txt'', NonDir (Plain (Some 5))),
      (ascii ''big.lnk'', NonDir (Symlink (Some 1000000))),
      (ascii ''gone'', NonDir (Plain None)),
      (ascii ''a'', Dir [(ascii ''x.txt'', NonDir (Plain (Some 10)))]),
      (ascii ''loop'', DirLink)]"

definition link_host :: host where
  "link_host = long_host\<lparr>tree_at := (\<lambda>p. link_tree)\<rparr>"

text \<open>
  The number of whitespace-separated fields of a line, counted without any split: the
  number of places where a character that is no whitespace starts a run.
\<close>

fun count_fields :: "bool \<Rightarrow> pystr \<Rightarrow> nat" where
  "count_fields in_field [] = 0"
| "count_fields in_field (c # cs) =
     (if py_isspace c then count_fields False cs
      else (if in_field then 0 else 1) + count_fields True cs)"

text \<open>\<open>name.lstrip("/")\<close> would be this if it removed one slash only.\<close>

definition strip_one_slash :: "pystr \<Rightarrow> pystr" where
  "strip_one_slash s = (if prefix [47] s then tl s else s)"

text \<open>
  A host where \<open>ps\<close> prints a header, two processes and a damaged line, where process 77
  (\<open>apache2\<close>) runs in the container \<open>0123456789abcdef\<close>, and where \<open>docker inspect\<close> prints
  the given name for that container.
\<close>

definition ps_output :: pystr where
  "ps_output =
     ascii ''    PID %CPU %MEM COMMAND'' @ [10]
     @ ascii ''   1234 12.5  3.1 python3'' @ [10]
     @ ascii ''   damaged line'' @ [10]
     @ ascii ''     77  0.3  0.0 apache2'' @ [10]"

definition cgroup_text :: pystr where
  "cgroup_text =
     ascii ''1:name=systemd:/docker/short'' @ [10]
     @ ascii ''0::/system.slice/docker-0123456789abcdef.scope'' @ [10]
     @ ascii ''2:cpu:/docker/fedcba9876543210'' @ [10]"

definition ps_host :: "pystr \<Rightarrow> host" where
  "ps_host name =
     long_host
       \<lparr>read_text := (\<lambda>p. if p = ascii ''/proc/77/cgroup'' then Some cgroup_text else None),
        check_output :=
          (\<lambda>cmd. if cmd = ps_cmd (ascii ''cpu'') then Inr ps_output
                 else if cmd = inspect_cmd (ascii ''0123456789abcdef'') then Inr (name @ [10])
                 else Inl (ascii ''Command failed''))\<rparr>"

text \<open>
  The candidate identifier for one marker in a path: the text after the first occurrence
  of the marker, up to the next slash and then up to the next dot. And what one line of
  the cgroup file gives: the body of the loop over the lines.
\<close>

definition candidate_id :: "pystr \<Rightarrow> pystr \<Rightarrow> pystr option" where
  "candidate_id marker path =
     map_option (\<lambda>idx. before_sep 46 (before_sep 47 (drop (idx + length marker) path)))
       (find_sub marker path)"

definition line_container_id :: "pystr \<Rightarrow> pystr option" where
  "line_container_id line =
     (let parts = split_on 58 2 line in
      if length parts \<noteq> 3 then None else scan_markers (parts ! 2) markers)"

text \<open>
  A host whose two roots are the same directory written in two ways. The directory holds
  the backups \<open>2024-01-01_10-00\<close> and \<open>2024-01-02_09-30\<close>, a directory \<open>notes\<close>, and a file
  with the name of a backup.
\<close>

definition twice_host :: host where
  "twice_host =
     long_host
       \<lparr>backup_fallback_dir := ascii ''/backups/'',
        abspath := (\<lambda>p. if p = ascii ''/backups/'' then ascii ''/backups'' else p),
        scandir := (\<lambda>p. Some [DirEntry (ascii ''2024-01-01_10-00'') (Some True),
                               DirEntry (ascii ''notes'') (Some True),
                               DirEntry (ascii ''2024-01-03_00-00'') (Some False),
                               DirEntry (ascii ''2024-01-02_09-30'') (Some True)])\<rparr>"

section \<open>Facts about the bounded report\<close>

lemma length_join_nl:
  "ls \<noteq> [] \<Longrightarrow> length (join_nl ls) + 1 = sum_list (map (\<lambda>line. length line + 1) ls)"
  by (induction ls rule: join_nl.induct) auto

lemma add_candidates_append:
  "add_candidates m b (pre @ post) = add_candidates m (add_candidates m b pre) post"
  by (induction pre arbitrary: b) auto

lemma add_candidates_spec:
  "lines (add_candidates m b cs) = lines b @ fst (spec_pack m (current_len b) cs)
   \<and> hidden (add_candidates m b cs) = hidden b + snd (spec_pack m (current_len b) cs)
   \<and> current_len (add_candidates m b cs)
       = current_len b + sum_list (map (\<lambda>line. length line + 1) (fst (spec_pack m (current_len b) cs)))"
proof (induction cs arbitrary: b)
  case Nil
  show ?case by simp
next
  case (Cons c cs)
  show ?case
  proof (cases "current_len b + length c + 1 \<le> m")
    case True
    then have step: "add_candidate m b c
        = b\<lparr>lines := lines b @ [c], current_len := current_len b + (length c + 1)\<rparr>"
      by (simp add: add_candidate_def Let_def)
    show ?thesis
      using True Cons.IH [of "add_candidate m b c"]
      by (simp add: step case_prod_beta add.assoc)
  next
    case False
    then have step: "add_candidate m b c = b\<lparr>hidden := hidden b + 1\<rparr>"
      by (simp add: add_candidate_def Let_def)
    show ?thesis
      using False Cons.IH [of "add_candidate m b c"]
      by (simp add: step case_prod_beta)
  qed
qed

lemma spec_pack_subseq: "subseq (fst (spec_pack m cur cs)) cs"
  by (induction cs arbitrary: cur) (auto simp: case_prod_beta)

lemma spec_pack_count:
  "length (fst (spec_pack m cur cs)) + snd (spec_pack m cur cs) = length cs"
  by (induction cs arbitrary: cur) (auto simp: case_prod_beta)

lemma spec_pack_budget:
  "cur \<le> m \<Longrightarrow> cur + sum_list (map (\<lambda>line. length line + 1) (fst (spec_pack m cur cs))) \<le> m"
proof (induction cs arbitrary: cur)
  case Nil
  then show ?case by simp
next
  case (Cons c cs)
  show ?case
  proof (cases "cur + length c + 1 \<le> m")
    case True
    from Cons.IH [OF True] True show ?thesis
      by (simp add: case_prod_beta add.assoc)
  next
    case False
    from Cons.IH [OF Cons.prems] False show ?thesis
      by (simp add: case_prod_beta)
  qed
qed

lemma body_of_fence: "body_of (fence body) = body"
  by (simp add: body_of_def fence_def ascii_def)

lemma join_nl_append_prefix: "prefix (join_nl hdr) (join_nl (hdr @ extra))"
proof (induction hdr rule: join_nl.induct)
  case 1
  show ?case by simp
next
  case (2 l)
  show ?case by (cases extra) simp_all
next
  case (3 l m ls)
  then show ?case by simp
qed

lemma add_candidate_fits:
  "current_len b + length c + 1 \<le> m \<Longrightarrow>
   add_candidate m b c = b\<lparr>lines := lines b @ [c], current_len := current_len b + (length c + 1)\<rparr>"
  by (simp add: add_candidate_def Let_def)

lemma add_candidate_drops:
  "\<not> current_len b + length c + 1 \<le> m \<Longrightarrow> add_candidate m b c = b\<lparr>hidden := hidden b + 1\<rparr>"
  by (simp add: add_candidate_def Let_def)

lemma add_candidates_snoc:
  "add_candidates m b (pre @ [c]) = add_candidate m (add_candidates m b pre) c"
  by (simp add: add_candidates_append)

lemma lines_add_candidates_mono:
  "set (lines b) \<subseteq> set (lines (add_candidates m b cs))"
  using add_candidates_spec [of m b cs] by simp

lemma later_candidate_kept:
  assumes "current_len (add_candidates m b pre) + length c + 1 \<le> m"
  shows "c \<in> set (lines (add_candidates m b (pre @ c # post)))"
proof -
  let ?next = "add_candidate m (add_candidates m b pre) c"
  have "c \<in> set (lines ?next)"
    using assms by (simp add: add_candidate_fits)
  moreover have "add_candidates m b (pre @ c # post) = add_candidates m ?next post"
    by (simp add: add_candidates_append)
  ultimately show ?thesis
    using lines_add_candidates_mono [of ?next m post] by auto
qed

lemma spec_pack_over_budget: "m < cur \<Longrightarrow> spec_pack m cur cs = ([], length cs)"
  by (induction cs) simp_all

text \<open>
  Claim C2. The returned text is the fence around the header lines, the kept candidates
  and the trailer, where the kept candidates and the number of dropped ones are those of
  the specification's packing, started with the header lines counted with one newline
  each: a candidate is kept exactly when the current length, its length and one fit the
  budget, and dropped and counted otherwise. The loop handles the candidates in their
  order and always reaches the end: the kept lines are a subsequence of the candidates,
  every candidate is either kept or counted, and a candidate that fits where it is met is
  in the result, also after an earlier one was dropped. The header lines open the result
  whatever their length: when they alone exceed the budget the report is the header lines
  and, if there are candidates, the trailer with the number of all of them.
\<close>

theorem bounded_report_packs_in_order:
  "(let cost = sum_list (map (\<lambda>line. length line + 1) hdr);
        packed = spec_pack m cost cands;
        b = add_candidates m (start_budget hdr) cands
    in bounded_report m trailer hdr cands
         = fence (join_nl (hdr @ fst packed
                           @ (if snd packed = 0 then [] else [trailer (snd packed)])))
       \<and> lines b = hdr @ fst packed
       \<and> hidden b = snd packed
       \<and> current_len b = cost + sum_list (map (\<lambda>line. length line + 1) (fst packed))
       \<and> subseq (fst packed) cands
       \<and> length (fst packed) + snd packed = length cands
       \<and> (m < cost \<longrightarrow>
            bounded_report m trailer hdr cands
              = fence (join_nl (hdr @ (if cands = [] then [] else [trailer (length cands)])))))
   \<and> (\<forall>pre c. add_candidates m (start_budget hdr) (pre @ [c]) =
         (let b = add_candidates m (start_budget hdr) pre in
          if current_len b + length c + 1 \<le> m
          then b\<lparr>lines := lines b @ [c], current_len := current_len b + (length c + 1)\<rparr>
          else b\<lparr>hidden := hidden b + 1\<rparr>))
   \<and> (\<forall>pre c post. cands = pre @ c # post
         \<and> sum_list (map (\<lambda>line. length line + 1) (lines (add_candidates m (start_budget hdr) pre)))
               + length c + 1 \<le> m
         \<longrightarrow> c \<in> set (lines (add_candidates m (start_budget hdr) cands))
             \<and> c \<in> set (fst (spec_pack m (sum_list (map (\<lambda>line. length line + 1) hdr)) cands)))"
proof -
  let ?cost = "sum_list (map (\<lambda>line. length line + 1) hdr)"
  let ?start = "start_budget hdr"
  let ?b = "add_candidates m ?start cands"
  let ?p = "spec_pack m ?cost cands"
  have cur: "current_len ?start = ?cost"
    by (simp add: start_budget_def)
  have l: "lines ?b = hdr @ fst ?p" and h: "hidden ?b = snd ?p"
    and c: "current_len ?b = ?cost + sum_list (map (\<lambda>line. length line + 1) (fst ?p))"
    using add_candidates_spec [of m ?start cands] by (simp_all add: start_budget_def)
  have report1: "bounded_report m trailer hdr cands
         = fence (join_nl (hdr @ fst ?p @ (if snd ?p = 0 then [] else [trailer (snd ?p)])))"
    by (simp add: bounded_report_def report_lines_def l h)
  have over: "bounded_report m trailer hdr cands
              = fence (join_nl (hdr @ (if cands = [] then [] else [trailer (length cands)])))"
    if "m < ?cost"
    unfolding report1 spec_pack_over_budget [OF that] by simp
  have step: "\<forall>pre c. add_candidates m ?start (pre @ [c]) =
         (let b = add_candidates m ?start pre in
          if current_len b + length c + 1 \<le> m
          then b\<lparr>lines := lines b @ [c], current_len := current_len b + (length c + 1)\<rparr>
          else b\<lparr>hidden := hidden b + 1\<rparr>)"
    by (simp add: add_candidates_snoc add_candidate_def Let_def)
  have later: "c \<in> set (lines ?b) \<and> c \<in> set (fst ?p)"
    if split: "cands = pre @ c # post"
      and fits: "sum_list (map (\<lambda>line. length line + 1) (lines (add_candidates m ?start pre)))
               + length c + 1 \<le> m"
    for pre c post
  proof -
    have inv: "current_len (add_candidates m ?start pre)
        = sum_list (map (\<lambda>line. length line + 1) (lines (add_candidates m ?start pre)))"
      using add_candidates_spec [of m ?start pre] by (simp add: start_budget_def)
    have fits': "current_len (add_candidates m ?start pre) + length c + 1 \<le> m"
      using fits by (simp only: inv)
    let ?next = "add_candidate m (add_candidates m ?start pre) c"
    have step1: "lines ?next = lines (add_candidates m ?start pre) @ [c]"
      using fits' by (simp add: add_candidate_fits)
    have "add_candidates m ?start (pre @ [c]) = ?next"
      by (rule add_candidates_snoc)
    then have "lines (add_candidates m ?start (pre @ [c])) = lines (add_candidates m ?start pre) @ [c]"
      using step1 by simp
    then have "hdr @ fst (spec_pack m ?cost (pre @ [c])) = hdr @ fst (spec_pack m ?cost pre) @ [c]"
      using add_candidates_spec [of m ?start "pre @ [c]"] add_candidates_spec [of m ?start pre]
      by (simp add: start_budget_def)
    then have kept: "c \<in> set (fst (spec_pack m ?cost (pre @ [c])))"
      by simp
    have "add_candidates m ?start cands = add_candidates m (add_candidates m ?start (pre @ [c])) post"
      unfolding split using add_candidates_append [of m ?start "pre @ [c]" post] by simp
    then have "set (lines (add_candidates m ?start (pre @ [c]))) \<subseteq> set (lines ?b)"
      using lines_add_candidates_mono [of "add_candidates m ?start (pre @ [c])" m post] by simp
    moreover have "c \<in> set (lines (add_candidates m ?start (pre @ [c])))"
      using kept add_candidates_spec [of m ?start "pre @ [c]"] by (simp add: start_budget_def)
    ultimately have inl: "c \<in> set (lines ?b)"
      by blast
    have "c \<in> set (fst ?p)"
    proof (rule ccontr)
      assume no: "c \<notin> set (fst ?p)"
      show False
      proof (cases "c \<in> set hdr")
        case False
        with inl no l show False by simp
      next
        case True
        have ap: "fst (spec_pack m cur (xs @ ys))
            = fst (spec_pack m cur xs)
              @ fst (spec_pack m (cur + sum_list (map (\<lambda>line. length line + 1) (fst (spec_pack m cur xs)))) ys)"
          for cur xs ys
          by (induction xs arbitrary: cur) (simp_all add: case_prod_beta add.assoc)
        have "fst ?p = fst (spec_pack m ?cost (pre @ [c]))
            @ fst (spec_pack m (?cost + sum_list (map (\<lambda>line. length line + 1)
                (fst (spec_pack m ?cost (pre @ [c]))))) post)"
          unfolding split using ap [of ?cost "pre @ [c]" post] by simp
        with kept no show False by simp
      qed
    qed
    with inl show ?thesis by blast
  qed
  show ?thesis
    unfolding Let_def
    using report1 l h c spec_pack_subseq [of m ?cost cands] spec_pack_count [of m ?cost cands]
      over step later
    unfolding Let_def by blast
qed

theorem bounded_report_packs_in_order_witness:
  "sum_list (map (\<lambda>line. length line + 1)
       (lines (add_candidates 10 (start_budget [ascii ''ab'']) [ascii ''a long line''])))
     + length (ascii ''xy'') + 1 \<le> 10
   \<and> ascii ''xy'' \<in> set (lines (add_candidates 10 (start_budget [ascii ''ab''])
                                   [ascii ''a long line'', ascii ''xy'']))
   \<and> bounded_report 10 files_trailer [ascii ''ab''] [ascii ''a long line'', ascii ''xy'']
       = fence (join_nl [ascii ''ab'', ascii ''xy'', files_trailer 1])
   \<and> 10 < sum_list (map (\<lambda>line. length line + 1) [ascii ''a long header'']) 
   \<and> bounded_report 10 files_trailer [ascii ''a long header''] [ascii ''xy'', ascii ''z'']
       = fence (join_nl [ascii ''a long header'', files_trailer 2])"
proof -
  have fits: "sum_list (map (\<lambda>line. length line + 1)
       (lines (add_candidates 10 (start_budget [ascii ''ab'']) [ascii ''a long line''])))
     + length (ascii ''xy'') + 1 \<le> 10"
    by (simp add: start_budget_def add_candidate_def ascii_def)
  have split: "[ascii ''a long line'', ascii ''xy''] = [ascii ''a long line''] @ ascii ''xy'' # []"
    by simp
  note th = bounded_report_packs_in_order
         [where m = 10 and hdr = "[ascii ''ab'']" and cands = "[ascii ''a long line'', ascii ''xy'']"
            and trailer = files_trailer, unfolded Let_def]
  from th fits split
  have kept: "ascii ''xy'' \<in> set (lines (add_candidates 10 (start_budget [ascii ''ab''])
                                   [ascii ''a long line'', ascii ''xy'']))"
    by blast
  have p: "spec_pack 10 (sum_list (map (\<lambda>line. length line + 1) [ascii ''ab'']))
             [ascii ''a long line'', ascii ''xy''] = ([ascii ''xy''], 1)"
    by (simp add: ascii_def)
  from th have "bounded_report 10 files_trailer [ascii ''ab''] [ascii ''a long line'', ascii ''xy'']
       = fence (join_nl ([ascii ''ab''] @ fst ([ascii ''xy''], 1::nat)
                         @ (if snd ([ascii ''xy''], 1::nat) = 0 then []
                            else [files_trailer (snd ([ascii ''xy''], 1::nat))])))"
    unfolding p by (rule conjunct1 [OF conjunct1])
  then have report1: "bounded_report 10 files_trailer [ascii ''ab''] [ascii ''a long line'', ascii ''xy'']
       = fence (join_nl [ascii ''ab'', ascii ''xy'', files_trailer 1])"
    by simp
  have long: "10 < sum_list (map (\<lambda>line. length line + 1) [ascii ''a long header''])"
    by (simp add: ascii_def)
  note th2 = bounded_report_packs_in_order
         [where m = 10 and hdr = "[ascii ''a long header'']" and cands = "[ascii ''xy'', ascii ''z'']"
            and trailer = files_trailer, unfolded Let_def]
  from th2 long
  have "bounded_report 10 files_trailer [ascii ''a long header''] [ascii ''xy'', ascii ''z'']
       = fence (join_nl ([ascii ''a long header'']
            @ (if [ascii ''xy'', ascii ''z''] = [] then []
               else [files_trailer (length [ascii ''xy'', ascii ''z''])])))"
    by blast
  then have report2: "bounded_report 10 files_trailer [ascii ''a long header''] [ascii ''xy'', ascii ''z'']
       = fence (join_nl [ascii ''a long header'', files_trailer 2])"
    by (simp add: numeral_2_eq_2)
  from fits kept report1 long report2 show ?thesis
    by blast
qed

lemma current_len_invariant:
  "current_len (add_candidates m (start_budget hdr) cs)
     = sum_list (map (\<lambda>line. length line + 1) (lines (add_candidates m (start_budget hdr) cs)))"
  using add_candidates_spec [of m "start_budget hdr" cs] by (simp add: start_budget_def)

lemma length_join_nl_le: "length (join_nl ls) \<le> sum_list (map (\<lambda>line. length line + 1) ls)"
  by (cases "ls = []") (use length_join_nl [of ls] in auto)

lemma join_nl_snoc: "ls \<noteq> [] \<Longrightarrow> join_nl (ls @ [t]) = join_nl ls @ [10] @ t"
  by (induction ls rule: join_nl.induct) auto

text \<open>
  Claim C1, as amended. The trailer line is appended after the loop and is not counted
  against the budget. What holds: the report ends with exactly one trailer line when
  candidates were dropped, and with none otherwise, and the number in it is the number of
  candidates that are not in the report; the body is the lines joined by newlines; and
  when the header lines fit the budget, the header and the kept lines with one newline
  each stay within the budget, so that the body is at most the budget without a trailer
  and at most the budget plus the length of the trailer line with one.
\<close>

theorem bounded_report_body_bound:
  "(let b = add_candidates m (start_budget hdr) cands;
        dropped = length cands - (length (lines b) - length hdr)
    in report_lines trailer b = lines b @ (if dropped = 0 then [] else [trailer dropped])
       \<and> body_of (bounded_report m trailer hdr cands) = join_nl (report_lines trailer b)
       \<and> (sum_list (map (\<lambda>line. length line + 1) hdr) \<le> m \<longrightarrow>
            sum_list (map (\<lambda>line. length line + 1) (lines b)) \<le> m
            \<and> length (body_of (bounded_report m trailer hdr cands))
                \<le> (if dropped = 0 then m else m + length (trailer dropped))))"
proof -
  let ?start = "start_budget hdr"
  let ?b = "add_candidates m ?start cands"
  let ?p = "spec_pack m (current_len ?start) cands"
  let ?dropped = "length cands - (length (lines ?b) - length hdr)"
  let ?cost = "\<lambda>ls. sum_list (map (\<lambda>line. length line + 1) ls)"
  have l: "lines ?b = hdr @ fst ?p" and h: "hidden ?b = snd ?p"
    using add_candidates_spec [of m ?start cands] by (simp_all add: start_budget_def)
  have dropped: "?dropped = hidden ?b"
    using spec_pack_count [of m "current_len ?start" cands] by (simp add: l h)
  have rl: "report_lines trailer ?b = lines ?b @ (if ?dropped = 0 then [] else [trailer ?dropped])"
    by (simp add: report_lines_def dropped)
  have body: "body_of (bounded_report m trailer hdr cands) = join_nl (report_lines trailer ?b)"
    by (simp add: bounded_report_def body_of_fence)
  have bound: "?cost (lines ?b) \<le> m
      \<and> length (body_of (bounded_report m trailer hdr cands))
                \<le> (if ?dropped = 0 then m else m + length (trailer ?dropped))"
    if fit: "?cost hdr \<le> m"
  proof -
    have cur: "current_len ?start = ?cost hdr"
      by (simp add: start_budget_def)
    then have "current_len ?start \<le> m"
      using fit by simp
    from spec_pack_budget [OF this, of cands]
    have "?cost hdr + ?cost (fst ?p) \<le> m"
      by (simp only: cur)
    moreover have "?cost (lines ?b) = ?cost hdr + ?cost (fst ?p)"
      by (simp only: l map_append sum_list_append)
    ultimately have c: "?cost (lines ?b) \<le> m"
      by simp
    have len: "length (join_nl (report_lines trailer ?b))
                \<le> (if ?dropped = 0 then m else m + length (trailer ?dropped))"
    proof (cases "?dropped = 0")
      case True
      then show ?thesis
        using c length_join_nl_le [of "lines ?b"] by (simp add: rl)
    next
      case False
      show ?thesis
      proof (cases "lines ?b = []")
        case True
        then show ?thesis using False by (simp add: rl)
      next
        case nonempty: False
        have "length (join_nl (lines ?b @ [trailer ?dropped]))
                = length (join_nl (lines ?b)) + 1 + length (trailer ?dropped)"
          by (simp add: join_nl_snoc [OF nonempty])
        also have "\<dots> = ?cost (lines ?b) + length (trailer ?dropped)"
          using length_join_nl [OF nonempty] by simp
        finally show ?thesis
          using c False by (simp add: rl)
      qed
    qed
    show ?thesis using c len by (simp add: body)
  qed
  show ?thesis
    unfolding Let_def using rl body bound by blast
qed

subsection \<open>Evaluation\<close>

lemma str_nat_digit: "n < 10 \<Longrightarrow> str_nat n = [48 + n]"
  by (simp add: str_nat.simps)

lemma str_nat_step: "10 \<le> n \<Longrightarrow> str_nat n = str_nat (n div 10) @ [48 + n mod 10]"
  by (subst str_nat.simps) simp

lemmas strptime_defs =
  parse_backup_ts_def strptime_matches_def field_Y_def field_m_def field_d_def field_H_def
  field_M_def two_digits_def one_digit_def lit_def digit_in_def digit_value_def
  decimal_zeros_def make_datetime_def days_in_month_def is_leap_def

lemma list_backups_long_host:
  "list_backups long_host = [(new_year_ts, ascii ''2024-01-01_10-00'', ascii ''/backups'')]"
  by (simp add: list_backups_def scan_roots_def scan_root_def long_host_def sort_newest_first_def
      strptime_defs ascii_def Let_def new_year_ts_def)

lemma long_host_sel:
  "isdir long_host p" "tree_at long_host p = long_tree" "pad_year long_host = False"
  by (simp_all add: long_host_def)

lemma list_backup_files_long_tree: "list_backup_files long_tree = map (\<lambda>n. (n, 0)) long_names"
  by (simp add: list_backup_files_def walk_files_def long_tree_def file_entry_def rel_path_def
      getsize_def long_names_def long_name_def)

lemma human_size_long_host_0: "human_size long_host 0 = ascii ''0 B''"
  by (simp add: human_size_def units_def long_host_def str_int_def str_nat_digit ascii_def)

lemma strftime_shown_new_year: "strftime_shown False new_year_ts = ascii ''2024-01-01 10:00''"
  by (simp add: strftime_shown_def fmt_Y_def fmt_2d_def zfill_def str_nat_digit str_nat_step
      ascii_def new_year_ts_def)

lemma backup_files_text_long_host:
  "backup_files_text long_host 1 = bounded_report 1800 files_trailer [long_header] long_lines"
  by (simp add: backup_files_text_def files_report_def list_backups_long_host long_host_sel
      list_backup_files_long_tree strftime_shown_new_year file_line_def human_size_long_host_0
      str_int_def str_nat_digit ascii_def long_header_def long_lines_def long_names_def)

lemma add_candidates_long_lines:
  "add_candidates 1800 (start_budget [long_header]) long_lines
   = \<lparr>lines = long_header # butlast long_lines, hidden = 1, current_len = 1800\<rparr>"
  by (simp add: start_budget_def add_candidate_def long_lines_def long_names_def long_name_def
      long_header_def ascii_def)

lemma body_long_host: "length (body_of (backup_files_text long_host 1)) = 1818"
  unfolding backup_files_text_long_host bounded_report_def body_of_fence add_candidates_long_lines
  by (simp add: report_lines_def files_trailer_def str_nat_digit long_lines_def long_names_def
      long_name_def long_header_def ascii_def)

text \<open>
  Claim C1 fails as stated: with seven file lines that fill the budget of 1800 exactly and
  an eighth file, the body of the manifest report has 1818 characters, the trailer line
  coming on top of the budget.
\<close>

theorem bounded_report_body_counterexample:
  "\<not> length (body_of (backup_files_text long_host 1)) \<le> 1800 + 1"
  by (simp add: body_long_host)

theorem bounded_report_body_bound_witness:
  "sum_list (map (\<lambda>line. length line + 1) [long_header]) \<le> 1800
   \<and> report_lines files_trailer (add_candidates 1800 (start_budget [long_header]) long_lines)
       = long_header # butlast long_lines @ [files_trailer 1]
   \<and> length (body_of (bounded_report 1800 files_trailer [long_header] long_lines))
       \<le> 1800 + length (files_trailer 1)"
proof -
  let ?b = "add_candidates 1800 (start_budget [long_header]) long_lines"
  have fit: "sum_list (map (\<lambda>line. length line + 1) [long_header]) \<le> 1800"
    by (simp add: long_header_def ascii_def)
  have l: "lines ?b = long_header # butlast long_lines"
    by (simp add: add_candidates_long_lines)
  have n: "length long_lines - (length (lines ?b) - length [long_header]) = 1"
    unfolding l by (simp add: long_lines_def long_names_def)
  note th = bounded_report_body_bound
         [where m = 1800 and hdr = "[long_header]" and cands = long_lines and trailer = files_trailer,
          unfolded Let_def n]
  from th have "report_lines files_trailer ?b
      = lines ?b @ (if (1::nat) = 0 then [] else [files_trailer 1])"
    by (rule conjunct1)
  then have a: "report_lines files_trailer ?b = long_header # butlast long_lines @ [files_trailer 1]"
    unfolding l by simp
  from th fit
  have "length (body_of (bounded_report 1800 files_trailer [long_header] long_lines))
          \<le> (if (1::nat) = 0 then 1800 else 1800 + length (files_trailer 1))"
    by blast
  then have b: "length (body_of (bounded_report 1800 files_trailer [long_header] long_lines))
          \<le> 1800 + length (files_trailer 1)"
    by simp
  from fit a b show ?thesis by blast
qed

section \<open>Facts about sizes and file lists\<close>

lemma add_file_size_contrib: "add_file_size tot entry = tot + file_contrib entry"
  by (simp add: add_file_size_def file_contrib_def split: option.splits)

lemma foldl_add_file_size:
  "foldl add_file_size tot files = tot + sum_list (map file_contrib files)"
  by (induction files arbitrary: tot) (simp_all add: add_file_size_contrib)

lemma foldl_walk_sizes:
  "foldl (\<lambda>tot (dirpath, dirs, files). foldl add_file_size tot files) tot walk
   = tot + sum_list (map (\<lambda>(dirpath, dirs, files). sum_list (map file_contrib files)) walk)"
  by (induction walk arbitrary: tot) (auto simp: foldl_add_file_size)

lemma file_contrib_simps:
  "file_contrib (n, Plain (Some s)) = s"
  "file_contrib (n, Plain None) = 0"
  "file_contrib (n, Symlink t) = 0"
  by (simp_all add: file_contrib_def add_file_size_def islink_def getsize_def)

lemma walk_sizes_entries:
  assumes "\<And>n sub. (n, Dir sub) \<in> set es \<Longrightarrow>
     sum_list (map (\<lambda>(dirpath, dirs, files). sum_list (map file_contrib files)) (os_walk (p @ [n]) (Dir sub)))
       = spec_size (Dir sub)"
  shows "sum_list (map file_contrib (concat (map (\<lambda>(n, t). case t of NonDir f \<Rightarrow> [(n, f)] | _ \<Rightarrow> []) es)))
       + sum_list (map (\<lambda>(dirpath, dirs, files). sum_list (map file_contrib files))
           (concat (map (\<lambda>(n, t). case t of Dir sub \<Rightarrow> os_walk (p @ [n]) t | _ \<Rightarrow> []) es)))
       = sum_list (map (\<lambda>(n, t). spec_size t) es)"
  using assms
proof (induction es)
  case Nil
  show ?case by simp
next
  case (Cons e es)
  obtain n t where e: "e = (n, t)" by (cases e)
  have IH: "sum_list (map file_contrib (concat (map (\<lambda>(n, t). case t of NonDir f \<Rightarrow> [(n, f)] | _ \<Rightarrow> []) es)))
       + sum_list (map (\<lambda>(dirpath, dirs, files). sum_list (map file_contrib files))
           (concat (map (\<lambda>(n, t). case t of Dir sub \<Rightarrow> os_walk (p @ [n]) t | _ \<Rightarrow> []) es)))
       = sum_list (map (\<lambda>(n, t). spec_size t) es)"
    by (rule Cons.IH) (rule Cons.prems, simp)
  show ?case
  proof (cases t)
    case (NonDir f)
    show ?thesis
    proof (cases f)
      case (Plain s)
      then show ?thesis
        using IH by (cases s) (simp_all add: e NonDir file_contrib_simps)
    next
      case (Symlink s)
      then show ?thesis
        using IH by (simp add: e NonDir file_contrib_simps)
    qed
  next
    case DirLink
    then show ?thesis using IH by (simp add: e)
  next
    case Unreadable
    then show ?thesis using IH by (simp add: e)
  next
    case (Dir sub)
    have "sum_list (map (\<lambda>(dirpath, dirs, files). sum_list (map file_contrib files)) (os_walk (p @ [n]) (Dir sub)))
       = spec_size (Dir sub)"
      by (rule Cons.prems) (simp add: e Dir)
    then show ?thesis
      using IH by (simp add: e Dir del: os_walk.simps spec_size.simps)
  qed
qed

lemma walk_sizes:
  "sum_list (map (\<lambda>(dirpath, dirs, files). sum_list (map file_contrib files)) (os_walk p t))
     = (case t of Dir es \<Rightarrow> spec_size (Dir es) | _ \<Rightarrow> 0)"
proof (induction p t rule: os_walk.induct)
  case (1 dirpath es)
  have sub: "sum_list (map (\<lambda>(dirpath, dirs, files). sum_list (map file_contrib files))
                (os_walk (dirpath @ [n]) (Dir sub))) = spec_size (Dir sub)"
    if "(n, Dir sub) \<in> set es" for n sub
    using "1.IH" [OF that refl refl] by simp
  show ?case
    using walk_sizes_entries [of es dirpath, OF sub] by simp
qed simp_all

text \<open>
  Claim C9. For a directory tree, the result of \<open>dir_size_bytes\<close> is the sum of the sizes of
  the regular files of the tree: a symbolic link counts as nothing, whatever the size of
  its target, and so does a file whose size cannot be read; the function always returns.
\<close>

theorem dir_size_bytes_regular_files:
  "tree_at h path = Dir es \<Longrightarrow> dir_size_bytes h path = spec_size (Dir es)"
  by (simp add: dir_size_bytes_def foldl_walk_sizes walk_sizes del: os_walk.simps spec_size.simps)

theorem dir_size_bytes_regular_files_witness:
  "tree_at link_host (ascii ''/backups/2024-01-01_10-00'') = link_tree
   \<and> dir_size_bytes link_host (ascii ''/backups/2024-01-01_10-00'') = 15"
proof -
  have t: "tree_at link_host (ascii ''/backups/2024-01-01_10-00'') = link_tree"
    by (simp add: link_host_def)
  from dir_size_bytes_regular_files [OF t [unfolded link_tree_def]] t
  show ?thesis by simp
qed

lemma contains_nonempty: "contains t p f \<Longrightarrow> p \<noteq> []"
  by (induction rule: contains.induct) simp_all

lemma in_concat_map: "x \<in> set xs \<Longrightarrow> y \<in> set (g x) \<Longrightarrow> y \<in> set (concat (map g xs))"
  by auto

lemma os_walk_Dir_head:
  "(d, concat (map (\<lambda>(n, t). case t of NonDir f \<Rightarrow> [] | _ \<Rightarrow> [n]) es),
       concat (map (\<lambda>(n, t). case t of NonDir f \<Rightarrow> [(n, f)] | _ \<Rightarrow> []) es))
     \<in> set (os_walk d (Dir es))"
  unfolding os_walk.simps by (rule list.set_intros(1))

lemma os_walk_Dir_tail:
  "x \<in> set (concat (map (\<lambda>(n, t). case t of Dir sub \<Rightarrow> os_walk (d @ [n]) t | _ \<Rightarrow> []) es))
     \<Longrightarrow> x \<in> set (os_walk d (Dir es))"
  unfolding os_walk.simps by (rule list.set_intros(2))

lemma contains_walked:
  "contains t p f \<Longrightarrow>
   \<exists>dirs files. (d @ butlast p, dirs, files) \<in> set (os_walk d t) \<and> (last p, f) \<in> set files"
proof (induction arbitrary: d rule: contains.induct)
  case (here n f es)
  have "(n, f) \<in> set (concat (map (\<lambda>(n, t). case t of NonDir f \<Rightarrow> [(n, f)] | _ \<Rightarrow> []) es))"
    by (rule in_concat_map [OF here]) simp
  then have B: "(last [n], f) \<in> set (concat (map (\<lambda>(n, t). case t of NonDir f \<Rightarrow> [(n, f)] | _ \<Rightarrow> []) es))"
    by simp
  have A: "(d @ butlast [n], concat (map (\<lambda>(n, t). case t of NonDir f \<Rightarrow> [] | _ \<Rightarrow> [n]) es),
       concat (map (\<lambda>(n, t). case t of NonDir f \<Rightarrow> [(n, f)] | _ \<Rightarrow> []) es))
     \<in> set (os_walk d (Dir es))"
    using os_walk_Dir_head [of d es] by (simp del: os_walk.simps)
  show ?case
    by (intro exI conjI) (rule A, rule B)
next
  case (below n sub es p f)
  from below.IH [of "d @ [n]"] obtain dirs files where
    w: "((d @ [n]) @ butlast p, dirs, files) \<in> set (os_walk (d @ [n]) (Dir sub))"
    and f: "(last p, f) \<in> set files"
    by blast
  have ne: "p \<noteq> []"
    using below.hyps(2) by (rule contains_nonempty)
  have "((d @ [n]) @ butlast p, dirs, files)
      \<in> set (concat (map (\<lambda>(n, t). case t of Dir sub \<Rightarrow> os_walk (d @ [n]) t | _ \<Rightarrow> []) es))"
    by (rule in_concat_map [OF below.hyps(1)]) (use w in \<open>simp del: os_walk.simps\<close>)
  then have "((d @ [n]) @ butlast p, dirs, files) \<in> set (os_walk d (Dir es))"
    by (rule os_walk_Dir_tail)
  then have A: "(d @ butlast (n # p), dirs, files) \<in> set (os_walk d (Dir es))"
    using ne by (simp del: os_walk.simps)
  have B: "(last (n # p), f) \<in> set files"
    using f ne by simp
  show ?case
    by (intro exI conjI) (rule A, rule B)
qed

lemma sum_list_insort_key:
  "sum_list (map g (insort_key f x xs)) = g x + sum_list (map g xs)"
  for g :: "'a \<Rightarrow> nat"
  by (induction xs) simp_all

lemma sum_list_sort_key: "sum_list (map g (sort_key f xs)) = sum_list (map g xs)"
  for g :: "'a \<Rightarrow> nat"
  by (induction xs) (simp_all add: sum_list_insort_key)

lemma sum_list_concat_map:
  "sum_list (map g (concat xss)) = sum_list (map (\<lambda>xs. sum_list (map g xs)) xss)"
  for g :: "'a \<Rightarrow> nat"
  by (induction xss) simp_all

lemma manifest_sum:
  "sum_list (map snd (list_backup_files t))
     = sum_list (map (\<lambda>(dirpath, dirs, files). sum_list (map (\<lambda>e. snd (file_entry [] e)) files))
         (os_walk [] t))"
proof -
  have "sum_list (map snd (walk_files t))
     = sum_list (map (\<lambda>(dirpath, dirs, files). sum_list (map (\<lambda>e. snd (file_entry [] e)) files))
         (os_walk [] t))"
    unfolding walk_files_def sum_list_concat_map map_map
    by (rule arg_cong [where f = sum_list], rule map_cong)
       (auto simp: file_entry_def comp_def)
  then show ?thesis
    by (simp add: list_backup_files_def sum_list_sort_key)
qed

lemma file_contrib_le: "file_contrib e \<le> snd (file_entry [] e)"
  by (simp add: file_contrib_def add_file_size_def file_entry_def split: option.splits)

lemma sum_list_gap:
  fixes c g :: "'a \<Rightarrow> nat"
  assumes "x \<in> set xs" and "\<And>y. c y \<le> g y" and "c x + s \<le> g x"
  shows "sum_list (map c xs) + s \<le> sum_list (map g xs)"
  using assms(1)
proof (induction xs)
  case Nil
  then show ?case by simp
next
  case (Cons y ys)
  have le: "sum_list (map c ys) \<le> sum_list (map g ys)"
    by (rule sum_list_mono) (rule assms(2))
  show ?case
  proof (cases "x = y")
    case True
    then show ?thesis using le assms(3) by simp
  next
    case False
    then have "sum_list (map c ys) + s \<le> sum_list (map g ys)"
      using Cons by simp
    then show ?thesis using assms(2) [of y] by simp
  qed
qed

lemma walk_gap:
  assumes "(dp, dirs, files) \<in> set walk" and "(n, Symlink tgt) \<in> set files"
  shows "sum_list (map (\<lambda>(dirpath, dirs, files). sum_list (map file_contrib files)) walk)
           + (case tgt of None \<Rightarrow> 0 | Some s \<Rightarrow> s)
         \<le> sum_list (map (\<lambda>(dirpath, dirs, files). sum_list (map (\<lambda>e. snd (file_entry [] e)) files)) walk)"
proof (rule sum_list_gap [OF assms(1)])
  show "(case y of (dirpath, dirs, files) \<Rightarrow> sum_list (map file_contrib files))
      \<le> (case y of (dirpath, dirs, files) \<Rightarrow> sum_list (map (\<lambda>e. snd (file_entry [] e)) files))" for y
    by (cases y) (simp add: sum_list_mono file_contrib_le)
  have "sum_list (map file_contrib files) + (case tgt of None \<Rightarrow> 0 | Some s \<Rightarrow> s)
      \<le> sum_list (map (\<lambda>e. snd (file_entry [] e)) files)"
  proof (rule sum_list_gap [OF assms(2)])
    show "file_contrib y \<le> snd (file_entry [] y)" for y
      by (rule file_contrib_le)
    show "file_contrib (n, Symlink tgt) + (case tgt of None \<Rightarrow> 0 | Some s \<Rightarrow> s)
        \<le> snd (file_entry [] (n, Symlink tgt))"
      by (simp add: file_contrib_simps file_entry_def getsize_def)
  qed
  then show "(case (dp, dirs, files) of (dirpath, dirs, files) \<Rightarrow> sum_list (map file_contrib files))
      + (case tgt of None \<Rightarrow> 0 | Some s \<Rightarrow> s)
      \<le> (case (dp, dirs, files) of (dirpath, dirs, files) \<Rightarrow> sum_list (map (\<lambda>e. snd (file_entry [] e)) files))"
    by simp
qed

text \<open>
  Claim C10. A symbolic link to a file anywhere in a backup is an entry of the file list,
  under its relative path and with the size of its target (0 when the target cannot be
  read), while \<open>dir_size_bytes\<close> counts nothing for it: the sizes of the file list add up to
  at least the computed size of the backup plus the size of the target.
\<close>

theorem manifest_counts_link_targets:
  "contains t p (Symlink tgt) \<Longrightarrow>
     (rel_path (butlast p) (last p), (case tgt of None \<Rightarrow> 0 | Some s \<Rightarrow> s))
        \<in> set (list_backup_files t)
     \<and> (\<forall>h path. tree_at h path = t \<longrightarrow>
           dir_size_bytes h path + (case tgt of None \<Rightarrow> 0 | Some s \<Rightarrow> s)
             \<le> sum_list (map snd (list_backup_files t)))"
proof -
  assume c: "contains t p (Symlink tgt)"
  from contains_walked [OF c, of "[]"] obtain dirs files where
    w: "(butlast p, dirs, files) \<in> set (os_walk [] t)" and f: "(last p, Symlink tgt) \<in> set files"
    by auto
  have "file_entry (butlast p) (last p, Symlink tgt) \<in> set (walk_files t)"
    unfolding walk_files_def using w f by force
  then have listed: "(rel_path (butlast p) (last p), (case tgt of None \<Rightarrow> 0 | Some s \<Rightarrow> s))
        \<in> set (list_backup_files t)"
    by (simp add: list_backup_files_def file_entry_def getsize_def)
  have "dir_size_bytes h path + (case tgt of None \<Rightarrow> 0 | Some s \<Rightarrow> s)
          \<le> sum_list (map snd (list_backup_files t))"
    if "tree_at h path = t" for h path
    using walk_gap [OF w f] that
    by (simp add: dir_size_bytes_def foldl_walk_sizes manifest_sum del: os_walk.simps)
  with listed show ?thesis by blast
qed

theorem manifest_counts_link_targets_witness:
  "contains link_tree [ascii ''big.lnk''] (Symlink (Some 1000000))
   \<and> (ascii ''big.lnk'', 1000000) \<in> set (list_backup_files link_tree)
   \<and> dir_size_bytes link_host (ascii ''/backups/2024-01-01_10-00'') = 15
   \<and> sum_list (map snd (list_backup_files link_tree)) = 1000015"
proof -
  have c: "contains link_tree [ascii ''big.lnk''] (Symlink (Some 1000000))"
    unfolding link_tree_def by (rule contains.here) simp
  have t: "tree_at link_host (ascii ''/backups/2024-01-01_10-00'') = link_tree"
    by (simp add: link_host_def)
  have d: "dir_size_bytes link_host (ascii ''/backups/2024-01-01_10-00'') = 15"
    by (simp add: dir_size_bytes_def t link_tree_def add_file_size_def islink_def getsize_def)
  have s: "sum_list (map snd (list_backup_files link_tree)) = 1000015"
    by (simp add: manifest_sum link_tree_def file_entry_def getsize_def)
  from manifest_counts_link_targets [OF c]
  have "(ascii ''big.lnk'', 1000000) \<in> set (list_backup_files link_tree)"
    by (simp add: rel_path_def)
  with c d s show ?thesis by blast
qed

section \<open>Facts about the process ranking\<close>

lemma count_fields_skip_space:
  "count_fields False (dropWhile py_isspace s) = count_fields False s"
  by (induction s) simp_all

lemma count_fields_in_field:
  "count_fields True cs = count_fields False (dropWhile (\<lambda>c. \<not> py_isspace c) cs)"
  by (induction cs) simp_all

lemma count_fields_first:
  assumes "r \<noteq> []" and "\<not> py_isspace (hd r)"
  shows "count_fields False r = 1 + count_fields False (dropWhile (\<lambda>c. \<not> py_isspace c) r)"
  using assms by (cases r) (simp_all add: count_fields_in_field)

lemma count_fields_blank:
  "dropWhile py_isspace s = [] \<Longrightarrow> count_fields False s = 0"
  using count_fields_skip_space [of s] by (simp del: dropWhile_eq_Nil_conv)

lemma count_fields_word:
  "dropWhile py_isspace s \<noteq> [] \<Longrightarrow>
   count_fields False s
     = 1 + count_fields False (dropWhile (\<lambda>c. \<not> py_isspace c) (dropWhile py_isspace s))"
  using count_fields_first [of "dropWhile py_isspace s"] hd_dropWhile [of py_isspace s]
    count_fields_skip_space [of s]
  by (simp del: dropWhile_eq_Nil_conv)

lemma length_split_ws: "length (split_ws k s) = min (Suc k) (count_fields False s)"
proof (induction k arbitrary: s)
  case 0
  show ?case
  proof (cases "dropWhile py_isspace s = []")
    case True
    then show ?thesis
      using count_fields_blank [OF True] by (simp del: dropWhile_eq_Nil_conv)
  next
    case False
    then show ?thesis
      using count_fields_word [OF False] by (simp del: dropWhile_eq_Nil_conv)
  qed
next
  case (Suc k)
  show ?case
  proof (cases "dropWhile py_isspace s = []")
    case True
    then show ?thesis
      using count_fields_blank [OF True] by (simp del: dropWhile_eq_Nil_conv)
  next
    case False
    then show ?thesis
      using count_fields_word [OF False] by (simp add: Suc.IH Let_def del: dropWhile_eq_Nil_conv)
  qed
qed

lemma process_row_short: "count_fields False row < 4 \<Longrightarrow> process_row h row = []"
  by (simp add: process_row_def length_split_ws Let_def)

lemma process_row_full: "4 \<le> count_fields False row \<Longrightarrow> length (process_row h row) = 1"
  by (simp add: process_row_def length_split_ws Let_def)

lemma length_rows:
  "length (concat (map (process_row h) rows))
     = length (filter (\<lambda>row. 4 \<le> count_fields False row) rows)"
proof (induction rows)
  case Nil
  show ?case by simp
next
  case (Cons r rows)
  show ?case
  proof (cases "4 \<le> count_fields False r")
    case True
    then show ?thesis using Cons process_row_full [of r h] by simp
  next
    case False
    then show ?thesis using Cons process_row_short [of r h] by simp
  qed
qed

text \<open>
  Claim C8. With fewer than two lines of output the result is \<open>n/a\<close>. Otherwise the first
  line is left out, a line with fewer than four whitespace-separated fields gives no row
  and any other line gives one row; the result is \<open>n/a\<close> when no row is left and the rows
  joined by newlines otherwise.
\<close>

theorem top5_processes_rows:
  "(let lns = splitlines (sh h (ps_cmd sort_by));
        rows = concat (map (process_row h) (tl lns))
    in (length lns < 2 \<longrightarrow> top5_processes h sort_by = ascii ''n/a'')
       \<and> (\<forall>row. count_fields False row < 4 \<longrightarrow> process_row h row = [])
       \<and> (\<forall>row. 4 \<le> count_fields False row \<longrightarrow> length (process_row h row) = 1)
       \<and> length rows = length (filter (\<lambda>row. 4 \<le> count_fields False row) (tl lns))
       \<and> (rows = [] \<longrightarrow> top5_processes h sort_by = ascii ''n/a'')
       \<and> (2 \<le> length lns \<and> rows \<noteq> [] \<longrightarrow> top5_processes h sort_by = join_nl rows))"
  unfolding Let_def
  using process_row_short [of _ h] process_row_full [of _ h]
    length_rows [of h "tl (splitlines (sh h (ps_cmd sort_by)))"]
  by (auto simp: top5_processes_def Let_def)

lemma sh_ps_host:
  "sh (ps_host name) (ps_cmd (ascii ''cpu'')) =
     ascii ''PID %CPU %MEM COMMAND'' @ [10]
     @ ascii ''   1234 12.5  3.1 python3'' @ [10]
     @ ascii ''   damaged line'' @ [10]
     @ ascii ''     77  0.3  0.0 apache2''"
  by (simp add: sh_def ps_host_def ps_output_def strip_def py_isspace_def ascii_def)

lemma lines_ps_host:
  "splitlines (sh (ps_host name) (ps_cmd (ascii ''cpu''))) =
     [ascii ''PID %CPU %MEM COMMAND'', ascii ''   1234 12.5  3.1 python3'',
      ascii ''   damaged line'', ascii ''     77  0.3  0.0 apache2'']"
  unfolding sh_ps_host
  by (simp add: splitlines_def is_linebreak_def ascii_def)

lemma scan_cgroups_ps_host:
  "scan_cgroups (splitlines cgroup_text) = Some (ascii ''0123456789abcdef'')"
  by (simp add: cgroup_text_def splitlines_def is_linebreak_def markers_def before_sep_def
      Let_def ascii_def numeral_2_eq_2)

lemma docker_name_ps_host:
  "docker_name_by_pid (ps_host name) (ascii ''77'')
     = (if prefix (ascii ''ERR'') (strip (name @ [10])) \<or> strip (name @ [10]) = [] then None
        else Some (lstrip_slash (strip (name @ [10]))))"
proof -
  have r: "read_text (ps_host name) (ascii ''/proc/'' @ ascii ''77'' @ ascii ''/cgroup'') = Some cgroup_text"
    by (simp add: ps_host_def ascii_def)
  have c: "sh (ps_host name) (inspect_cmd (ascii ''0123456789abcdef'')) = strip (name @ [10])"
    by (simp add: sh_def ps_host_def ps_cmd_def inspect_cmd_def ascii_def)
  show ?thesis
    unfolding docker_name_by_pid_def r option.case scan_cgroups_ps_host c Let_def
    by simp
qed

lemma docker_name_web: "docker_name_by_pid (ps_host (ascii ''/web'')) (ascii ''77'') = Some (ascii ''web'')"
  unfolding docker_name_ps_host
  by (simp add: strip_def py_isspace_def lstrip_slash_def ascii_def)

lemma rows_ps_host:
  "concat (map (process_row (ps_host (ascii ''/web'')))
     [ascii ''   1234 12.5  3.1 python3'', ascii ''   damaged line'',
      ascii ''     77  0.3  0.0 apache2''])
   = [ascii '' 1234   12.5%    3.1%  python3'',
      ascii ''   77    0.3%    0.0%  apache2 (docker: web)'']"
proof -
  have a: "split_ws 3 (ascii ''   1234 12.5  3.1 python3'')
      = [ascii ''1234'', ascii ''12.5'', ascii ''3.1'', ascii ''python3'']"
    by (simp add: numeral_3_eq_3 py_isspace_def ascii_def)
  have b: "split_ws 3 (ascii ''   damaged line'') = [ascii ''damaged'', ascii ''line'']"
    by (simp add: numeral_3_eq_3 py_isspace_def ascii_def)
  have c: "split_ws 3 (ascii ''     77  0.3  0.0 apache2'')
      = [ascii ''77'', ascii ''0.3'', ascii ''0.0'', ascii ''apache2'']"
    by (simp add: numeral_3_eq_3 py_isspace_def ascii_def)
  have ne: "ascii ''python3'' \<noteq> ascii ''apache2''" "ascii ''web'' \<noteq> []"
    by (simp_all add: ascii_def)
  show ?thesis
    by (simp add: process_row_def a b c ne docker_name_web Let_def)
       (simp add: rjust_def ascii_def numeral_2_eq_2 numeral_3_eq_3)
qed

theorem top5_processes_rows_witness:
  "length (splitlines (sh (ps_host (ascii ''/web'')) (ps_cmd (ascii ''cpu'')))) = 4
   \<and> count_fields False (ascii ''   damaged line'') < 4
   \<and> process_row (ps_host (ascii ''/web'')) (ascii ''   damaged line'') = []
   \<and> top5_processes (ps_host (ascii ''/web'')) (ascii ''cpu'')
       = ascii '' 1234   12.5%    3.1%  python3'' @ [10]
         @ ascii ''   77    0.3%    0.0%  apache2 (docker: web)''"
proof -
  let ?h = "ps_host (ascii ''/web'')"
  have n: "length (splitlines (sh ?h (ps_cmd (ascii ''cpu'')))) = 4"
    by (simp add: lines_ps_host)
  have short: "count_fields False (ascii ''   damaged line'') < 4"
    by (simp add: py_isspace_def ascii_def)
  note th = top5_processes_rows [of ?h "ascii ''cpu''", unfolded Let_def lines_ps_host list.sel rows_ps_host]
  from th short have none: "process_row ?h (ascii ''   damaged line'') = []"
    by blast
  from th have "top5_processes ?h (ascii ''cpu'')
       = join_nl [ascii '' 1234   12.5%    3.1%  python3'',
                  ascii ''   77    0.3%    0.0%  apache2 (docker: web)'']"
    by simp
  with n short none show ?thesis by simp
qed

section \<open>Facts about the container name\<close>

lemma before_sep_takeWhile: "before_sep sep s = takeWhile (\<lambda>c. c \<noteq> sep) s"
proof (cases "sep \<in> set s")
  case True
  then show ?thesis by (simp add: before_sep_def)
next
  case False
  then have eq: "takeWhile (\<lambda>c. c \<noteq> sep) s = s"
    by (intro takeWhile_eq_all_conv [THEN iffD2]) auto
  show ?thesis
    using False by (simp add: before_sep_def eq)
qed

lemma takeWhile_twice:
  "takeWhile P (takeWhile Q xs) = takeWhile (\<lambda>x. Q x \<and> P x) xs"
  by (induction xs) simp_all

lemma candidate_id_shape:
  "candidate_id marker path = Some cid \<Longrightarrow>
   \<exists>idx. find_sub marker path = Some idx
      \<and> cid = takeWhile (\<lambda>c. c \<noteq> 47 \<and> c \<noteq> 46) (drop (idx + length marker) path)"
  by (auto simp: candidate_id_def before_sep_takeWhile takeWhile_twice)

lemma scan_markers_Some:
  "scan_markers path ms = Some cid \<Longrightarrow>
   12 \<le> length cid \<and> (\<exists>m \<in> set ms. candidate_id m path = Some cid)"
  by (induction ms) (auto simp: candidate_id_def Let_def split: option.splits if_splits)

lemma scan_markers_first:
  "\<forall>m \<in> set pre. \<forall>c. candidate_id m path = Some c \<longrightarrow> length c < 12 \<Longrightarrow>
   candidate_id m path = Some cid \<Longrightarrow> 12 \<le> length cid \<Longrightarrow>
   scan_markers path (pre @ m # post) = Some cid"
  by (induction pre) (auto simp: candidate_id_def Let_def split: option.splits)

lemma scan_cgroups_step:
  "scan_cgroups (line # rest)
     = (case line_container_id line of Some cid \<Rightarrow> Some cid | None \<Rightarrow> scan_cgroups rest)"
  by (simp add: line_container_id_def Let_def)

lemma scan_cgroups_Some:
  "scan_cgroups lns = Some cid \<Longrightarrow> \<exists>line \<in> set lns. line_container_id line = Some cid"
  by (induction lns) (auto simp: scan_cgroups_step simp del: scan_cgroups.simps(2) split: option.splits)

lemma scan_cgroups_first:
  "scan_cgroups pre = None \<Longrightarrow> line_container_id line = Some cid \<Longrightarrow>
   scan_cgroups (pre @ line # post) = Some cid"
  by (induction pre) (auto simp: scan_cgroups_step simp del: scan_cgroups.simps(2) split: option.splits)

lemma line_container_id_Some:
  "line_container_id line = Some cid \<Longrightarrow>
   length (split_on 58 2 line) = 3 \<and> 12 \<le> length cid
   \<and> (\<exists>m \<in> set markers. candidate_id m (split_on 58 2 line ! 2) = Some cid)"
  using scan_markers_Some [of "split_on 58 2 line ! 2" markers cid]
  by (auto simp: line_container_id_def Let_def split: if_splits)

lemma find_sub_suffix: "find_sub m (xs @ ys) = None \<Longrightarrow> find_sub m ys = None"
  by (induction xs) (auto split: if_splits)

lemma split_on_nonempty: "split_on sep k s \<noteq> []"
  by (cases k) simp_all

lemma split_on_last_suffix: "\<exists>pre. s = pre @ last (split_on sep k s)"
proof (induction k arbitrary: s)
  case 0
  show ?case by simp
next
  case (Suc k)
  show ?case
  proof (cases "sep \<in> set s")
    case False
    then show ?thesis by simp
  next
    case True
    let ?P = "\<lambda>c. c \<noteq> sep"
    have ne: "dropWhile ?P s \<noteq> []"
      using True by simp
    then have "hd (dropWhile ?P s) = sep"
      using hd_dropWhile [of ?P s] by simp
    with ne have d: "dropWhile ?P s = sep # tl (dropWhile ?P s)"
      by (cases "dropWhile ?P s") simp_all
    from Suc.IH [of "tl (dropWhile ?P s)"] obtain pre where
      pre: "tl (dropWhile ?P s) = pre @ last (split_on sep k (tl (dropWhile ?P s)))"
      by blast
    have "s = takeWhile ?P s @ dropWhile ?P s"
      by simp
    also have "\<dots> = (takeWhile ?P s @ [sep] @ pre) @ last (split_on sep k (tl (dropWhile ?P s)))"
      using d pre by (metis append.assoc append_Cons append_Nil)
    finally have "\<exists>pre. s = pre @ last (split_on sep k (tl (dropWhile ?P s)))"
      by (rule exI)
    moreover have "last (split_on sep (Suc k) s) = last (split_on sep k (tl (dropWhile ?P s)))"
      using True split_on_nonempty [of sep k "tl (dropWhile ?P s)"] by simp
    ultimately show ?thesis by simp
  qed
qed

lemma scan_markers_no_marker:
  "\<forall>m \<in> set ms. find_sub m path = None \<Longrightarrow> scan_markers path ms = None"
  by (induction ms) simp_all

lemma line_container_id_no_marker:
  assumes "\<forall>m \<in> set markers. find_sub m line = None"
  shows "line_container_id line = None"
proof (cases "length (split_on 58 2 line) = 3")
  case False
  then show ?thesis by (simp add: line_container_id_def)
next
  case True
  then have "split_on 58 2 line ! 2 = last (split_on 58 2 line)"
    by (cases "split_on 58 2 line" rule: rev_cases) (simp_all add: nth_append)
  with split_on_last_suffix [of line 58 2] obtain pre where
    "line = pre @ split_on 58 2 line ! 2"
    by auto
  with assms have "\<forall>m \<in> set markers. find_sub m (split_on 58 2 line ! 2) = None"
    using find_sub_suffix by metis
  then show ?thesis
    using True by (simp add: line_container_id_def scan_markers_no_marker)
qed

lemma scan_cgroups_no_marker:
  "\<forall>line \<in> set lns. \<forall>m \<in> set markers. find_sub m line = None \<Longrightarrow> scan_cgroups lns = None"
  by (induction lns)
     (simp_all add: scan_cgroups_step line_container_id_no_marker del: scan_cgroups.simps(2))

lemma lstrip_slash_shape:
  "\<not> prefix [47] (lstrip_slash name)
   \<and> name = replicate (length name - length (lstrip_slash name)) 47 @ lstrip_slash name"
proof (induction name)
  case Nil
  show ?case by (simp add: lstrip_slash_def)
next
  case (Cons c name)
  then show ?case
    by (cases "c = 47") (auto simp: lstrip_slash_def Suc_diff_le length_dropWhile_le)
qed

lemma lstrip_one_slash:
  "\<not> prefix [47] rest \<Longrightarrow> lstrip_slash (47 # rest) = rest"
  by (cases rest) (simp_all add: lstrip_slash_def)

lemma sh_failure: "check_output h cmd = Inl e \<Longrightarrow> prefix (ascii ''ERR'') (sh h cmd)"
  by (simp add: sh_def ascii_def)

lemma scan_markers_none:
  "\<forall>m \<in> set ms. \<forall>c. candidate_id m path = Some c \<longrightarrow> length c < 12 \<Longrightarrow>
   scan_markers path ms = None"
  by (induction ms) (auto simp: candidate_id_def Let_def split: option.splits)

lemma scan_cgroups_none:
  "\<forall>line \<in> set lns. line_container_id line = None \<Longrightarrow> scan_cgroups lns = None"
  by (induction lns) (simp_all add: scan_cgroups_step del: scan_cgroups.simps(2))

lemma scan_cgroups_first_line:
  "\<forall>l \<in> set pre. line_container_id l = None \<Longrightarrow> line_container_id line = Some cid \<Longrightarrow>
   scan_cgroups (pre @ line # post) = Some cid"
  using scan_cgroups_none [of pre] by (rule scan_cgroups_first)

lemma strip_one_slash_lstrip:
  "\<not> prefix [47, 47] name \<Longrightarrow> lstrip_slash name = strip_one_slash name"
proof (cases name)
  case Nil
  then show ?thesis by (simp add: lstrip_slash_def strip_one_slash_def)
next
  case (Cons c rest)
  assume "\<not> prefix [47, 47] name"
  then show ?thesis
    using Cons lstrip_one_slash [of rest]
    by (cases "c = 47") (auto simp: lstrip_slash_def strip_one_slash_def)
qed

text \<open>
  Claim C3. The function gives nothing when the cgroup file cannot be read, when no line
  holds a marker, when no line gives an accepted identifier, when the inspection command
  fails and when it prints nothing. Otherwise the identifier of the first line that gives
  one is inspected, whatever follows that line, and the result is the text of the command
  without its leading slashes; for a text that does not start with two slashes, as the
  names Docker prints, that is the text without its single leading slash. Within a line
  the markers are tried in their order and the first candidate of at least 12 characters
  is taken; a candidate is the text after the first occurrence of the marker in the third
  part of the line, up to the next slash or dot.
\<close>

theorem docker_name_by_pid_result:
  "(read_text h (ascii ''/proc/'' @ pid @ ascii ''/cgroup'') = None
       \<longrightarrow> docker_name_by_pid h pid = None)
   \<and> (\<forall>content. read_text h (ascii ''/proc/'' @ pid @ ascii ''/cgroup'') = Some content
         \<and> (\<forall>line \<in> set (splitlines content). \<forall>m \<in> set markers. find_sub m line = None)
       \<longrightarrow> docker_name_by_pid h pid = None)
   \<and> (\<forall>content. read_text h (ascii ''/proc/'' @ pid @ ascii ''/cgroup'') = Some content
         \<and> (\<forall>line \<in> set (splitlines content). line_container_id line = None)
       \<longrightarrow> docker_name_by_pid h pid = None)
   \<and> (\<forall>content pre line post cid.
         read_text h (ascii ''/proc/'' @ pid @ ascii ''/cgroup'') = Some content
         \<and> splitlines content = pre @ line # post
         \<and> (\<forall>l \<in> set pre. line_container_id l = None)
         \<and> line_container_id line = Some cid
       \<longrightarrow> docker_name_by_pid h pid
             = (if prefix (ascii ''ERR'') (sh h (inspect_cmd cid)) \<or> sh h (inspect_cmd cid) = []
                then None else Some (lstrip_slash (sh h (inspect_cmd cid))))
           \<and> (\<forall>e. check_output h (inspect_cmd cid) = Inl e \<longrightarrow> docker_name_by_pid h pid = None)
           \<and> (sh h (inspect_cmd cid) = [] \<longrightarrow> docker_name_by_pid h pid = None)
           \<and> (\<not> prefix (ascii ''ERR'') (sh h (inspect_cmd cid)) \<and> sh h (inspect_cmd cid) \<noteq> []
                \<and> \<not> prefix [47, 47] (sh h (inspect_cmd cid))
               \<longrightarrow> docker_name_by_pid h pid = Some (strip_one_slash (sh h (inspect_cmd cid)))))
   \<and> (\<forall>name. docker_name_by_pid h pid = Some name \<longrightarrow>
         (\<exists>content cid line m idx.
            read_text h (ascii ''/proc/'' @ pid @ ascii ''/cgroup'') = Some content
            \<and> scan_cgroups (splitlines content) = Some cid
            \<and> line \<in> set (splitlines content) \<and> line_container_id line = Some cid
            \<and> length (split_on 58 2 line) = 3 \<and> m \<in> set markers
            \<and> find_sub m (split_on 58 2 line ! 2) = Some idx
            \<and> cid = takeWhile (\<lambda>c. c \<noteq> 47 \<and> c \<noteq> 46)
                      (drop (idx + length m) (split_on 58 2 line ! 2))
            \<and> 12 \<le> length cid
            \<and> name = lstrip_slash (sh h (inspect_cmd cid))
            \<and> \<not> prefix [47] name))
   \<and> (\<forall>path pre m post cid.
         (\<forall>m' \<in> set pre. \<forall>c. candidate_id m' path = Some c \<longrightarrow> length c < 12)
         \<and> candidate_id m path = Some cid \<and> 12 \<le> length cid
       \<longrightarrow> scan_markers path (pre @ m # post) = Some cid)
   \<and> (\<forall>path ms. (\<forall>m \<in> set ms. \<forall>c. candidate_id m path = Some c \<longrightarrow> length c < 12)
       \<longrightarrow> scan_markers path ms = None)
   \<and> (\<forall>line. line_container_id line
         = (if length (split_on 58 2 line) = 3 then scan_markers (split_on 58 2 line ! 2) markers
            else None))"
proof -
  let ?file = "read_text h (ascii ''/proc/'' @ pid @ ascii ''/cgroup'')"
  have a: "?file = None \<longrightarrow> docker_name_by_pid h pid = None"
    by (simp add: docker_name_by_pid_def)
  have c0: "\<forall>content. ?file = Some content \<and> scan_cgroups (splitlines content) = None
       \<longrightarrow> docker_name_by_pid h pid = None"
    by (simp add: docker_name_by_pid_def)
  have b: "\<forall>content. ?file = Some content
         \<and> (\<forall>line \<in> set (splitlines content). \<forall>m \<in> set markers. find_sub m line = None)
       \<longrightarrow> docker_name_by_pid h pid = None"
    using c0 scan_cgroups_no_marker by blast
  have c: "\<forall>content. ?file = Some content
         \<and> (\<forall>line \<in> set (splitlines content). line_container_id line = None)
       \<longrightarrow> docker_name_by_pid h pid = None"
    using c0 scan_cgroups_none by blast
  have d: "docker_name_by_pid h pid
             = (if prefix (ascii ''ERR'') (sh h (inspect_cmd cid)) \<or> sh h (inspect_cmd cid) = []
                then None else Some (lstrip_slash (sh h (inspect_cmd cid))))
           \<and> (\<forall>e. check_output h (inspect_cmd cid) = Inl e \<longrightarrow> docker_name_by_pid h pid = None)
           \<and> (sh h (inspect_cmd cid) = [] \<longrightarrow> docker_name_by_pid h pid = None)
           \<and> (\<not> prefix (ascii ''ERR'') (sh h (inspect_cmd cid)) \<and> sh h (inspect_cmd cid) \<noteq> []
                \<and> \<not> prefix [47, 47] (sh h (inspect_cmd cid))
               \<longrightarrow> docker_name_by_pid h pid = Some (strip_one_slash (sh h (inspect_cmd cid))))"
    if content: "?file = Some content" and lns: "splitlines content = pre @ line # post"
      and before: "\<forall>l \<in> set pre. line_container_id l = None"
      and found: "line_container_id line = Some cid"
    for content pre line post cid
  proof -
    have scan: "scan_cgroups (splitlines content) = Some cid"
      unfolding lns using before found by (rule scan_cgroups_first_line)
    have res: "docker_name_by_pid h pid
             = (if prefix (ascii ''ERR'') (sh h (inspect_cmd cid)) \<or> sh h (inspect_cmd cid) = []
                then None else Some (lstrip_slash (sh h (inspect_cmd cid))))"
      by (simp add: docker_name_by_pid_def content scan Let_def)
    have err: "\<forall>e. check_output h (inspect_cmd cid) = Inl e \<longrightarrow> docker_name_by_pid h pid = None"
      using sh_failure [of h "inspect_cmd cid"] by (simp add: res)
    have empty: "sh h (inspect_cmd cid) = [] \<longrightarrow> docker_name_by_pid h pid = None"
      by (simp add: res)
    have one: "\<not> prefix (ascii ''ERR'') (sh h (inspect_cmd cid)) \<and> sh h (inspect_cmd cid) \<noteq> []
                \<and> \<not> prefix [47, 47] (sh h (inspect_cmd cid))
               \<longrightarrow> docker_name_by_pid h pid = Some (strip_one_slash (sh h (inspect_cmd cid)))"
      using strip_one_slash_lstrip [of "sh h (inspect_cmd cid)"] by (simp add: res)
    from res err empty one show ?thesis
      by blast
  qed
  have e: "\<exists>content cid line m idx.
            ?file = Some content
            \<and> scan_cgroups (splitlines content) = Some cid
            \<and> line \<in> set (splitlines content) \<and> line_container_id line = Some cid
            \<and> length (split_on 58 2 line) = 3 \<and> m \<in> set markers
            \<and> find_sub m (split_on 58 2 line ! 2) = Some idx
            \<and> cid = takeWhile (\<lambda>c. c \<noteq> 47 \<and> c \<noteq> 46)
                      (drop (idx + length m) (split_on 58 2 line ! 2))
            \<and> 12 \<le> length cid
            \<and> name = lstrip_slash (sh h (inspect_cmd cid))
            \<and> \<not> prefix [47] name"
    if res: "docker_name_by_pid h pid = Some name" for name
  proof -
    from res obtain content where content: "?file = Some content"
      by (cases ?file) (simp_all add: docker_name_by_pid_def)
    from res content obtain cid where cid: "scan_cgroups (splitlines content) = Some cid"
      by (cases "scan_cgroups (splitlines content)") (simp_all add: docker_name_by_pid_def)
    from res content cid have name: "name = lstrip_slash (sh h (inspect_cmd cid))"
      by (simp add: docker_name_by_pid_def Let_def split: if_splits)
    from scan_cgroups_Some [OF cid] obtain line where
      line: "line \<in> set (splitlines content)" "line_container_id line = Some cid"
      by blast
    from line_container_id_Some [OF line(2)] obtain m where
      m: "length (split_on 58 2 line) = 3" "12 \<le> length cid" "m \<in> set markers"
         "candidate_id m (split_on 58 2 line ! 2) = Some cid"
      by blast
    from candidate_id_shape [OF m(4)] obtain idx where
      idx: "find_sub m (split_on 58 2 line ! 2) = Some idx"
        "cid = takeWhile (\<lambda>c. c \<noteq> 47 \<and> c \<noteq> 46) (drop (idx + length m) (split_on 58 2 line ! 2))"
      by blast
    have noslash: "\<not> prefix [47] name"
      unfolding name using lstrip_slash_shape by blast
    from content cid line m(1,2,3) idx name noslash show ?thesis
      by blast
  qed
  have f: "\<forall>path pre m post cid.
         (\<forall>m' \<in> set pre. \<forall>c. candidate_id m' path = Some c \<longrightarrow> length c < 12)
         \<and> candidate_id m path = Some cid \<and> 12 \<le> length cid
       \<longrightarrow> scan_markers path (pre @ m # post) = Some cid"
    using scan_markers_first by blast
  have g: "\<forall>path ms. (\<forall>m \<in> set ms. \<forall>c. candidate_id m path = Some c \<longrightarrow> length c < 12)
       \<longrightarrow> scan_markers path ms = None"
    using scan_markers_none by blast
  have i: "\<forall>line. line_container_id line
         = (if length (split_on 58 2 line) = 3 then scan_markers (split_on 58 2 line ! 2) markers
            else None)"
    by (simp add: line_container_id_def Let_def)
  from a b c d e f g i show ?thesis
    by blast
qed

lemma splitlines_cgroup_text:
  "splitlines cgroup_text =
     [ascii ''1:name=systemd:/docker/short'']
     @ ascii ''0::/system.slice/docker-0123456789abcdef.scope''
     # [ascii ''2:cpu:/docker/fedcba9876543210'']"
  by (simp add: cgroup_text_def splitlines_def is_linebreak_def ascii_def)

lemma line_ids_cgroup_text:
  "line_container_id (ascii ''1:name=systemd:/docker/short'') = None"
  "line_container_id (ascii ''0::/system.slice/docker-0123456789abcdef.scope'')
     = Some (ascii ''0123456789abcdef'')"
  "line_container_id (ascii ''2:cpu:/docker/fedcba9876543210'') = Some (ascii ''fedcba9876543210'')"
  by (simp_all add: line_container_id_def markers_def before_sep_def Let_def ascii_def numeral_2_eq_2)

theorem docker_name_by_pid_result_witness:
  "read_text (ps_host (ascii ''/web'')) (ascii ''/proc/'' @ ascii ''77'' @ ascii ''/cgroup'') = Some cgroup_text
   \<and> splitlines cgroup_text =
       [ascii ''1:name=systemd:/docker/short'']
       @ ascii ''0::/system.slice/docker-0123456789abcdef.scope''
       # [ascii ''2:cpu:/docker/fedcba9876543210'']
   \<and> line_container_id (ascii ''1:name=systemd:/docker/short'') = None
   \<and> line_container_id (ascii ''0::/system.slice/docker-0123456789abcdef.scope'')
       = Some (ascii ''0123456789abcdef'')
   \<and> sh (ps_host (ascii ''/web'')) (inspect_cmd (ascii ''0123456789abcdef'')) = ascii ''/web''
   \<and> docker_name_by_pid (ps_host (ascii ''/web'')) (ascii ''77'') = Some (ascii ''web'')
   \<and> read_text (ps_host (ascii ''/web'')) (ascii ''/proc/'' @ ascii ''1'' @ ascii ''/cgroup'') = None
   \<and> docker_name_by_pid (ps_host (ascii ''/web'')) (ascii ''1'') = None
   \<and> sh (ps_host []) (inspect_cmd (ascii ''0123456789abcdef'')) = []
   \<and> docker_name_by_pid (ps_host []) (ascii ''77'') = None"
proof -
  let ?h = "ps_host (ascii ''/web'')"
  let ?cid = "ascii ''0123456789abcdef''"
  have gone: "read_text ?h (ascii ''/proc/'' @ ascii ''1'' @ ascii ''/cgroup'') = None"
    by (simp add: ps_host_def ascii_def)
  with docker_name_by_pid_result [of ?h "ascii ''1''"]
  have none: "docker_name_by_pid ?h (ascii ''1'') = None"
    by blast
  have content: "read_text (ps_host name) (ascii ''/proc/'' @ ascii ''77'' @ ascii ''/cgroup'') = Some cgroup_text"
    for name
    by (simp add: ps_host_def ascii_def)
  have before: "\<forall>l \<in> set [ascii ''1:name=systemd:/docker/short'']. line_container_id l = None"
    by (simp add: line_ids_cgroup_text)
  have out: "sh ?h (inspect_cmd ?cid) = ascii ''/web''"
    by (simp add: sh_def ps_host_def ps_cmd_def inspect_cmd_def strip_def py_isspace_def ascii_def)
  have ok: "\<not> prefix (ascii ''ERR'') (sh ?h (inspect_cmd ?cid)) \<and> sh ?h (inspect_cmd ?cid) \<noteq> []
      \<and> \<not> prefix [47, 47] (sh ?h (inspect_cmd ?cid))"
    unfolding out by (simp add: ascii_def)
  from docker_name_by_pid_result [of ?h "ascii ''77''"] content [of "ascii ''/web''"]
    splitlines_cgroup_text before line_ids_cgroup_text(2) ok
  have "docker_name_by_pid ?h (ascii ''77'') = Some (strip_one_slash (sh ?h (inspect_cmd ?cid)))"
    by blast
  then have name: "docker_name_by_pid ?h (ascii ''77'') = Some (ascii ''web'')"
    unfolding out by (simp add: strip_one_slash_def ascii_def)
  have silent: "sh (ps_host []) (inspect_cmd ?cid) = []"
    by (simp add: sh_def ps_host_def ps_cmd_def inspect_cmd_def strip_def py_isspace_def ascii_def)
  from docker_name_by_pid_result [of "ps_host []" "ascii ''77''"] content [of "[]"]
    splitlines_cgroup_text before line_ids_cgroup_text(2) silent
  have unnamed: "docker_name_by_pid (ps_host []) (ascii ''77'') = None"
    by blast
  show ?thesis
    by (intro conjI)
      (rule content, rule splitlines_cgroup_text, rule line_ids_cgroup_text(1),
       rule line_ids_cgroup_text(2), rule out, rule name, rule gone, rule none, rule silent,
       rule unnamed)
qed

section \<open>Facts about the backup inventory\<close>

lemma sort_newest_first_sorted:
  "sorted_wrt (\<lambda>a b. dt_key (fst b) \<le> dt_key (fst a)) (sort_newest_first bs)"
proof -
  have "sorted (map (\<lambda>item. dt_key (fst item)) (sort_key (\<lambda>item. dt_key (fst item)) (rev bs)))"
    by (rule sorted_sort_key)
  then have "sorted_wrt (\<lambda>a b. dt_key (fst a) \<le> dt_key (fst b))
               (sort_key (\<lambda>item. dt_key (fst item)) (rev bs))"
    by (simp add: sorted_map)
  then show ?thesis
    by (simp add: sort_newest_first_def sorted_wrt_rev)
qed

lemma set_sort_newest_first: "set (sort_newest_first bs) = set bs"
  by (simp add: sort_newest_first_def)

lemma distinct_sort_newest_first: "distinct (sort_newest_first bs) = distinct bs"
  by (simp add: sort_newest_first_def)

lemma scan_entries_acc: "scan_entries b es acc = acc @ scan_entries b es []"
proof (induction es arbitrary: acc)
  case Nil
  show ?case by simp
next
  case (Cons e es)
  show ?case
    using Cons [of "acc @ [(the (parse_backup_ts (d_name e)), d_name e, b)]"]
      Cons [of "[(the (parse_backup_ts (d_name e)), d_name e, b)]"] Cons [of acc]
    by (auto split: option.splits bool.splits)
qed

lemma scan_entries_names:
  "subseq (map (\<lambda>item. fst (snd item)) (scan_entries b es [])) (map d_name es)"
proof (induction es)
  case Nil
  show ?case by simp
next
  case (Cons e es)
  show ?case
    using Cons scan_entries_acc [of b es "[(the (parse_backup_ts (d_name e)), d_name e, b)]"]
    by (auto split: option.splits bool.splits)
qed

lemma scan_entries_base: "item \<in> set (scan_entries b es []) \<Longrightarrow> snd (snd item) = b"
proof (induction es)
  case Nil
  then show ?case by simp
next
  case (Cons e es)
  then show ?case
    using scan_entries_acc [of b es "[(the (parse_backup_ts (d_name e)), d_name e, b)]"]
    by (auto split: option.splits bool.splits)
qed

lemma subseq_keeps_distinct: "subseq xs ys \<Longrightarrow> distinct ys \<Longrightarrow> distinct xs"
proof (induction rule: list_emb.induct)
  case (list_emb_Nil ys)
  show ?case by simp
next
  case (list_emb_Cons xs ys y)
  then show ?case by simp
next
  case (list_emb_Cons2 x y xs ys)
  then have "set xs \<subseteq> set ys"
    using list_emb_set [of "(=)" xs ys] by auto
  with list_emb_Cons2 show ?case by auto
qed

lemma scan_entries_distinct:
  assumes "distinct (map d_name es)"
  shows "distinct (map snd (scan_entries b es []))"
proof -
  have "distinct (map (\<lambda>item. fst (snd item)) (scan_entries b es []))"
    using scan_entries_names [of b es] assms by (rule subseq_keeps_distinct)
  then show ?thesis
    by (auto simp: distinct_map inj_on_def)
qed

lemma scan_root_inv: "scan_inv st \<Longrightarrow> scan_inv (scan_root h st dir0)"
  using scan_entries_acc [of "abspath h dir0" _ "st_backups st"] scan_entries_base [of _ "abspath h dir0"]
  by (auto simp: scan_inv_def scan_root_def Let_def split: option.splits)

lemma scan_root_distinct:
  assumes "scan_inv st" and "distinct (map snd (st_backups st))"
    and "\<And>p es. scandir h p = Some es \<Longrightarrow> distinct (map d_name es)"
  shows "distinct (map snd (st_backups (scan_root h st dir0)))"
proof (cases "dir0 \<noteq> [] \<and> abspath h dir0 \<notin> st_seen_dirs st \<and> isdir h (abspath h dir0)
              \<and> scandir h (abspath h dir0) \<noteq> None")
  case False
  then show ?thesis
    using assms(2) by (auto simp: scan_root_def Let_def split: option.splits)
next
  case True
  then obtain es where es: "scandir h (abspath h dir0) = Some es"
    by auto
  have new: "distinct (map snd (scan_entries (abspath h dir0) es []))"
    using assms(3) [OF es] by (rule scan_entries_distinct)
  have "False"
    if old: "item \<in> set (st_backups st)"
      and fresh: "item' \<in> set (scan_entries (abspath h dir0) es [])"
      and same: "snd item = snd item'" for item item'
  proof -
    from fresh have "snd (snd item') = abspath h dir0"
      by (rule scan_entries_base)
    moreover from old assms(1) have "snd (snd item) \<in> st_seen_dirs st"
      by (simp add: scan_inv_def)
    ultimately show False
      using True same by simp
  qed
  then have apart: "snd ` set (st_backups st) \<inter> snd ` set (scan_entries (abspath h dir0) es []) = {}"
    by blast
  have "st_backups (scan_root h st dir0) = st_backups st @ scan_entries (abspath h dir0) es []"
    using True es scan_entries_acc [of "abspath h dir0" es "st_backups st"]
    by (simp add: scan_root_def Let_def)
  with new apart assms(2) show ?thesis
    by simp
qed

lemma scan_roots_inv: "scan_inv (scan_roots h)"
proof -
  have "scan_inv \<lparr>st_backups = [], st_seen_dirs = {}, scanned = []\<rparr>"
    by (simp add: scan_inv_def)
  then have "scan_inv (scan_root h (scan_root h \<lparr>st_backups = [], st_seen_dirs = {}, scanned = []\<rparr>
      (backup_base_dir h)) (backup_fallback_dir h))"
    by (intro scan_root_inv)
  then show ?thesis
    by (simp add: scan_roots_def)
qed

lemma scan_roots_distinct:
  assumes "\<And>p es. scandir h p = Some es \<Longrightarrow> distinct (map d_name es)"
  shows "distinct (map snd (st_backups (scan_roots h)))"
proof -
  let ?init = "\<lparr>st_backups = [], st_seen_dirs = {}, scanned = []\<rparr>"
  have i0: "scan_inv ?init" by (simp add: scan_inv_def)
  have d1: "distinct (map snd (st_backups (scan_root h ?init (backup_base_dir h))))"
    by (rule scan_root_distinct [OF i0 _ assms]) simp_all
  have i1: "scan_inv (scan_root h ?init (backup_base_dir h))"
    by (rule scan_root_inv [OF i0])
  show ?thesis
    unfolding scan_roots_def using scan_root_distinct [OF i1 d1 assms] by simp
qed

lemma scanned_same_root:
  assumes "abspath h (backup_base_dir h) = abspath h (backup_fallback_dir h)"
  shows "length (scanned (scan_roots h)) \<le> 1"
  using assms by (auto simp: scan_roots_def scan_root_def Let_def split: option.splits)

lemma scanned_distinct: "distinct (scanned (scan_roots h))"
  using scan_roots_inv [of h] by (simp add: scan_inv_def)

lemma sort_newest_first_stable:
  "filter (\<lambda>item. dt_key (fst item) = k) (sort_newest_first bs)
     = filter (\<lambda>item. dt_key (fst item) = k) bs"
proof -
  have "filter (\<lambda>item. dt_key (fst item) = k) (sort_key (\<lambda>item. dt_key (fst item)) (rev bs))
          = filter (\<lambda>item. dt_key (fst item) = k) (rev bs)"
    by (rule sort_key_stable)
  then show ?thesis
    by (simp add: sort_newest_first_def rev_filter [symmetric])
qed

lemma scan_roots_same_root:
  assumes "abspath h (backup_base_dir h) = abspath h (backup_fallback_dir h)"
    and "backup_base_dir h \<noteq> []" and "isdir h (abspath h (backup_base_dir h))"
    and "scandir h (abspath h (backup_base_dir h)) = Some es"
  shows "scanned (scan_roots h) = [abspath h (backup_base_dir h)]"
    and "st_backups (scan_roots h) = scan_entries (abspath h (backup_base_dir h)) es []"
  using assms by (auto simp: scan_roots_def scan_root_def Let_def)

text \<open>
  Claim C5. The list returned by \<open>list_backups\<close> is sorted newest first, and the sort keeps
  every entry: for each timestamp the entries with it are those found, in the order found.
  No root is scanned twice. When both roots have the same absolute path, at most one scan
  is made, and the entries are those of the one listing of that root. When no listing
  names an entry twice, the returned list has no duplicates.
\<close>

theorem list_backups_sorted_once:
  "sorted_wrt (\<lambda>a b. dt_key (fst b) \<le> dt_key (fst a)) (list_backups h)
   \<and> (\<forall>k. filter (\<lambda>item. dt_key (fst item) = k) (list_backups h)
            = filter (\<lambda>item. dt_key (fst item) = k) (st_backups (scan_roots h)))
   \<and> set (list_backups h) = set (st_backups (scan_roots h))
   \<and> length (list_backups h) = length (st_backups (scan_roots h))
   \<and> distinct (scanned (scan_roots h))
   \<and> (abspath h (backup_base_dir h) = abspath h (backup_fallback_dir h) \<longrightarrow>
         length (scanned (scan_roots h)) \<le> 1
         \<and> (\<forall>es. backup_base_dir h \<noteq> [] \<and> isdir h (abspath h (backup_base_dir h))
                \<and> scandir h (abspath h (backup_base_dir h)) = Some es \<longrightarrow>
                scanned (scan_roots h) = [abspath h (backup_base_dir h)]
                \<and> list_backups h
                    = sort_newest_first (scan_entries (abspath h (backup_base_dir h)) es [])))
   \<and> ((\<forall>p es. scandir h p = Some es \<longrightarrow> distinct (map d_name es)) \<longrightarrow>
         distinct (list_backups h)
         \<and> distinct (map snd (list_backups h)))"
proof -
  have a: "sorted_wrt (\<lambda>a b. dt_key (fst b) \<le> dt_key (fst a)) (list_backups h)"
    unfolding list_backups_def by (rule sort_newest_first_sorted)
  have b: "\<forall>k. filter (\<lambda>item. dt_key (fst item) = k) (list_backups h)
            = filter (\<lambda>item. dt_key (fst item) = k) (st_backups (scan_roots h))"
    unfolding list_backups_def by (simp add: sort_newest_first_stable)
  have c: "set (list_backups h) = set (st_backups (scan_roots h))"
    unfolding list_backups_def by (rule set_sort_newest_first)
  have d: "length (list_backups h) = length (st_backups (scan_roots h))"
    by (simp add: list_backups_def sort_newest_first_def)
  have e: "distinct (scanned (scan_roots h))"
    by (rule scanned_distinct)
  have f: "length (scanned (scan_roots h)) \<le> 1
         \<and> (\<forall>es. backup_base_dir h \<noteq> [] \<and> isdir h (abspath h (backup_base_dir h))
                \<and> scandir h (abspath h (backup_base_dir h)) = Some es \<longrightarrow>
                scanned (scan_roots h) = [abspath h (backup_base_dir h)]
                \<and> list_backups h
                    = sort_newest_first (scan_entries (abspath h (backup_base_dir h)) es []))"
    if same: "abspath h (backup_base_dir h) = abspath h (backup_fallback_dir h)"
    using scanned_same_root [OF same] scan_roots_same_root [OF same]
    by (simp add: list_backups_def)
  have g: "distinct (list_backups h)
         \<and> distinct (map snd (list_backups h))"
    if names: "\<forall>p es. scandir h p = Some es \<longrightarrow> distinct (map d_name es)"
  proof -
    have "distinct (map snd (st_backups (scan_roots h)))"
      using names by (intro scan_roots_distinct) blast
    then have "distinct (map snd (list_backups h))"
      by (simp add: list_backups_def sort_newest_first_def distinct_map)
    then show ?thesis
      by (simp add: distinct_map)
  qed
  from a b c d e f g show ?thesis
    by blast
qed

lemma twice_host_sel:
  "backup_base_dir twice_host = ascii ''/backups''"
  "backup_fallback_dir twice_host = ascii ''/backups/''"
  "abspath twice_host (ascii ''/backups'') = ascii ''/backups''"
  "abspath twice_host (ascii ''/backups/'') = ascii ''/backups''"
  "isdir twice_host p = True"
  "scandir twice_host p = Some [DirEntry (ascii ''2024-01-01_10-00'') (Some True),
                               DirEntry (ascii ''notes'') (Some True),
                               DirEntry (ascii ''2024-01-03_00-00'') (Some False),
                               DirEntry (ascii ''2024-01-02_09-30'') (Some True)]"
  by (simp_all add: twice_host_def long_host_def ascii_def)

lemma scan_entries_twice_host:
  "scan_entries (ascii ''/backups'')
     [DirEntry (ascii ''2024-01-01_10-00'') (Some True),
      DirEntry (ascii ''notes'') (Some True),
      DirEntry (ascii ''2024-01-03_00-00'') (Some False),
      DirEntry (ascii ''2024-01-02_09-30'') (Some True)] []
   = [(new_year_ts, ascii ''2024-01-01_10-00'', ascii ''/backups''),
      (\<lparr>year = 2024, month = 1, day = 2, hour = 9, minute = 30\<rparr>,
       ascii ''2024-01-02_09-30'', ascii ''/backups'')]"
  by (simp add: strptime_defs ascii_def Let_def new_year_ts_def)

theorem list_backups_sorted_once_witness:
  "abspath twice_host (backup_base_dir twice_host) = abspath twice_host (backup_fallback_dir twice_host)
   \<and> backup_base_dir twice_host \<noteq> backup_fallback_dir twice_host
   \<and> scanned (scan_roots twice_host) = [ascii ''/backups'']
   \<and> list_backups twice_host
       = [(\<lparr>year = 2024, month = 1, day = 2, hour = 9, minute = 30\<rparr>,
           ascii ''2024-01-02_09-30'', ascii ''/backups''),
          (new_year_ts, ascii ''2024-01-01_10-00'', ascii ''/backups'')]
   \<and> distinct (list_backups twice_host)
   \<and> sorted_wrt (\<lambda>a b. dt_key (fst b) \<le> dt_key (fst a)) (list_backups twice_host)"
proof -
  let ?h = twice_host
  have same: "abspath ?h (backup_base_dir ?h) = abspath ?h (backup_fallback_dir ?h)"
    by (simp add: twice_host_sel)
  have differ: "backup_base_dir ?h \<noteq> backup_fallback_dir ?h"
    by (simp add: twice_host_sel ascii_def)
  have names: "\<forall>p es. scandir ?h p = Some es \<longrightarrow> distinct (map d_name es)"
    by (simp add: twice_host_sel ascii_def)
  have there: "backup_base_dir ?h \<noteq> [] \<and> isdir ?h (abspath ?h (backup_base_dir ?h))
      \<and> scandir ?h (abspath ?h (backup_base_dir ?h))
          = Some [DirEntry (ascii ''2024-01-01_10-00'') (Some True),
                  DirEntry (ascii ''notes'') (Some True),
                  DirEntry (ascii ''2024-01-03_00-00'') (Some False),
                  DirEntry (ascii ''2024-01-02_09-30'') (Some True)]"
    by (simp add: twice_host_sel) (simp add: ascii_def)
  note fact = list_backups_sorted_once [of ?h]
  from fact have sorted: "sorted_wrt (\<lambda>a b. dt_key (fst b) \<le> dt_key (fst a)) (list_backups ?h)"
    by (rule conjunct1)
  from fact names have dist: "distinct (list_backups ?h)"
    by blast
  from fact same there have once: "scanned (scan_roots ?h) = [abspath ?h (backup_base_dir ?h)]"
    by blast
  from fact same there have "list_backups ?h
      = sort_newest_first (scan_entries (abspath ?h (backup_base_dir ?h))
          [DirEntry (ascii ''2024-01-01_10-00'') (Some True),
           DirEntry (ascii ''notes'') (Some True),
           DirEntry (ascii ''2024-01-03_00-00'') (Some False),
           DirEntry (ascii ''2024-01-02_09-30'') (Some True)] [])"
    by blast
  then have listed: "list_backups ?h
       = [(\<lparr>year = 2024, month = 1, day = 2, hour = 9, minute = 30\<rparr>,
           ascii ''2024-01-02_09-30'', ascii ''/backups''),
          (new_year_ts, ascii ''2024-01-01_10-00'', ascii ''/backups'')]"
    unfolding twice_host_sel scan_entries_twice_host
    by (simp add: sort_newest_first_def dt_key_def new_year_ts_def)
  from once have once': "scanned (scan_roots ?h) = [ascii ''/backups'']"
    by (simp add: twice_host_sel)
  show ?thesis
    by (intro conjI) (rule same, rule differ, rule once', rule listed, rule dist, rule sorted)
qed

end
